theory Spec2Isabelle
  imports Main "HOL-Library.Word"
begin

unbundle bit_operations_syntax

section \<open>Go values: bytes, slices, the heap\<close>

text \<open>
  The package \<open>josecipher\<close> (file \<open>cipher/cbc_hmac.go\<close>) works on Go byte slices. A slice
  is a window (offset, length, capacity) on an underlying array, and several slices may
  share one array: \<open>append\<close>, \<open>copy\<close> and \<open>CryptBlocks\<close> write through them. The heap is
  the list of all arrays allocated so far; allocation adds one at the end. Lengths are
  natural numbers; the one place where the width of Go's \<open>int\<close> is reachable
  (\<open>len(input)*8\<close> in \<open>bitLen\<close>) is modelled at that width.
\<close>

type_synonym byte = "8 word"

record slice =
  s_arr :: nat
  s_off :: nat
  s_len :: nat
  s_cap :: nat

text \<open>The calls into the block cipher in CBC mode, with the number of bytes processed.\<close>

datatype event = CBCEncrypt nat | CBCDecrypt nat

record state =
  heap :: "byte list list"
  events :: "event list"

text \<open>The run-time panics the code under study can reach.\<close>

datatype panic =
    IVLengthMismatch        \<comment> \<open>cipher.NewCBCEncrypter/Decrypter: IV length must equal block size\<close>
  | InputNotFullBlocks      \<comment> \<open>crypto/cipher: input not full blocks\<close>
  | OutputSmallerThanInput  \<comment> \<open>crypto/cipher: output smaller than input\<close>
  | DivideByZero            \<comment> \<open>integer divide by zero\<close>
  | NilHash                 \<comment> \<open>hmac.New calls a nil hash constructor\<close>
  | SliceBounds             \<comment> \<open>slice bounds out of range\<close>
  | PaddingFailed           \<comment> \<open>\<open>panic(err)\<close> in Seal\<close>

datatype 'a outcome = Return 'a | Panic panic

text \<open>The error values returned (not panicked) by the package and its collaborators.\<close>

datatype error =
    InvalidKey nat          \<comment> \<open>the block-cipher factory rejects a key of this length\<close>
  | CiphertextTooShort      \<comment> \<open>square/go-jose: invalid ciphertext (too short)\<close>
  | AuthenticationFailed    \<comment> \<open>square/go-jose: invalid ciphertext (auth tag mismatch)\<close>
  | InvalidPadding          \<comment> \<open>error of the padding package\<close>

type_synonym 'a go = "state \<Rightarrow> 'a outcome \<times> state"

definition go_return :: "'a \<Rightarrow> 'a go" where
  "go_return x = (\<lambda>s. (Return x, s))"

definition go_panic :: "panic \<Rightarrow> 'a go" where
  "go_panic p = (\<lambda>s. (Panic p, s))"

definition go_bind :: "'a go \<Rightarrow> ('a \<Rightarrow> 'b go) \<Rightarrow> 'b go" where
  "go_bind m f = (\<lambda>s. case m s of (Return x, s') \<Rightarrow> f x s' | (Panic p, s') \<Rightarrow> (Panic p, s'))"

subsection \<open>Reading and writing arrays\<close>

definition arr_of :: "byte list list \<Rightarrow> nat \<Rightarrow> byte list" where
  "arr_of h a = (if a < length h then h ! a else [])"

definition valid :: "byte list list \<Rightarrow> slice \<Rightarrow> bool" where
  "valid h sl = (s_len sl \<le> s_cap sl \<and> s_off sl + s_cap sl \<le> length (arr_of h (s_arr sl)))"

definition rd :: "byte list list \<Rightarrow> slice \<Rightarrow> byte list" where
  "rd h sl = take (s_len sl) (drop (s_off sl) (arr_of h (s_arr sl)))"

definition wr :: "byte list list \<Rightarrow> nat \<Rightarrow> nat \<Rightarrow> byte list \<Rightarrow> byte list list" where
  "wr h a i xs =
     (if a < length h then h[a := take i (h ! a) @ xs @ drop (i + length xs) (h ! a)] else h)"

definition nil_slice :: slice where
  "nil_slice = \<lparr>s_arr = 0, s_off = 0, s_len = 0, s_cap = 0\<rparr>"

subsection \<open>The built-ins \<open>make\<close>, \<open>copy\<close>, \<open>append\<close> and slice expressions\<close>

definition go_make :: "nat \<Rightarrow> slice go" where
  "go_make n = (\<lambda>s.
     (Return \<lparr>s_arr = length (heap s), s_off = 0, s_len = n, s_cap = n\<rparr>,
      s\<lparr>heap := heap s @ [replicate n 0]\<rparr>))"

text \<open>A library call that returns freshly allocated bytes (\<open>hmac.Sum(nil)\<close>).\<close>

definition go_fresh :: "byte list \<Rightarrow> slice go" where
  "go_fresh xs = (\<lambda>s.
     (Return \<lparr>s_arr = length (heap s), s_off = 0, s_len = length xs, s_cap = length xs\<rparr>,
      s\<lparr>heap := heap s @ [xs]\<rparr>))"

definition go_copy :: "slice \<Rightarrow> slice \<Rightarrow> nat go" where
  "go_copy dst src = (\<lambda>s.
     let n = min (s_len dst) (s_len src)
     in (Return n, s\<lparr>heap := wr (heap s) (s_arr dst) (s_off dst) (take n (rd (heap s) src))\<rparr>))"

text \<open>
  \<open>append(sl, xs...)\<close>: in place when the capacity suffices, otherwise into a new, larger
  array (the language leaves the new capacity open; \<open>growcap\<close> doubles).
\<close>

definition growcap :: "nat \<Rightarrow> nat \<Rightarrow> nat" where
  "growcap old needed = max needed (2 * old)"

definition append_bytes :: "slice \<Rightarrow> byte list \<Rightarrow> slice go" where
  "append_bytes sl xs = (\<lambda>s.
     let n = s_len sl + length xs in
     if n \<le> s_cap sl
     then (Return (sl\<lparr>s_len := n\<rparr>),
           s\<lparr>heap := wr (heap s) (s_arr sl) (s_off sl + s_len sl) xs\<rparr>)
     else (Return \<lparr>s_arr = length (heap s), s_off = 0, s_len = n, s_cap = growcap (s_cap sl) n\<rparr>,
           s\<lparr>heap := heap s @ [rd (heap s) sl @ xs @ replicate (growcap (s_cap sl) n - n) 0]\<rparr>))"

definition go_append :: "slice \<Rightarrow> slice \<Rightarrow> slice go" where
  "go_append sl src = (\<lambda>s. append_bytes sl (rd (heap s) src) s)"

text \<open>\<open>sl[lo:hi]\<close>; \<open>sl[:hi]\<close> is \<open>reslice sl 0 hi\<close> and \<open>sl[lo:]\<close> is \<open>reslice sl lo (s_len sl)\<close>.\<close>

definition reslice :: "slice \<Rightarrow> nat \<Rightarrow> nat \<Rightarrow> slice go" where
  "reslice sl lo hi =
     (if lo \<le> hi \<and> hi \<le> s_cap sl
      then go_return \<lparr>s_arr = s_arr sl, s_off = s_off sl + lo, s_len = hi - lo, s_cap = s_cap sl - lo\<rparr>
      else go_panic SliceBounds)"

section \<open>The collaborators: block cipher, CBC mode, padding, HMAC\<close>

text \<open>\<open>cipher.Block\<close>: the block size and the two block transformations.\<close>

record block =
  blockSize :: nat
  encryptBlock :: "byte list \<Rightarrow> byte list"
  decryptBlock :: "byte list \<Rightarrow> byte list"

definition xor_bytes :: "byte list \<Rightarrow> byte list \<Rightarrow> byte list" where
  "xor_bytes xs ys = map2 (XOR) xs ys"

text \<open>The loop of \<open>cbcEncrypter.CryptBlocks\<close>: xor with the previous block, encrypt, move on.\<close>

function cbc_encrypt :: "block \<Rightarrow> byte list \<Rightarrow> byte list \<Rightarrow> byte list" where
  "cbc_encrypt b iv src =
     (if blockSize b = 0 \<or> src = [] then []
      else let c = encryptBlock b (xor_bytes (take (blockSize b) src) iv)
           in c @ cbc_encrypt b c (drop (blockSize b) src))"
  by pat_completeness auto
termination
  by (relation "measure (\<lambda>(b, iv, src). length src)") auto

function cbc_decrypt :: "block \<Rightarrow> byte list \<Rightarrow> byte list \<Rightarrow> byte list" where
  "cbc_decrypt b iv src =
     (if blockSize b = 0 \<or> src = [] then []
      else let c = take (blockSize b) src
           in xor_bytes (decryptBlock b c) iv @ cbc_decrypt b c (drop (blockSize b) src))"
  by pat_completeness auto
termination
  by (relation "measure (\<lambda>(b, iv, src). length src)") auto

declare cbc_encrypt.simps [simp del]
declare cbc_decrypt.simps [simp del]

text \<open>
  \<open>cipher.NewCBCEncrypter\<close> and \<open>cipher.NewCBCDecrypter\<close> panic unless the IV has the
  block size, and keep a private copy of the IV.
\<close>

definition NewCBC :: "block \<Rightarrow> slice \<Rightarrow> byte list go" where
  "NewCBC b iv = (\<lambda>s.
     if s_len iv \<noteq> blockSize b then (Panic IVLengthMismatch, s)
     else (Return (rd (heap s) iv), s))"

text \<open>
  \<open>CryptBlocks(dst, src)\<close> of the encrypter and of the decrypter. The code under study
  always passes the same slice for both arguments.
\<close>

definition CryptBlocks_enc :: "block \<Rightarrow> byte list \<Rightarrow> slice \<Rightarrow> slice \<Rightarrow> unit go" where
  "CryptBlocks_enc b iv dst src = (\<lambda>s.
     if blockSize b = 0 then (Panic DivideByZero, s)
     else if s_len src mod blockSize b \<noteq> 0 then (Panic InputNotFullBlocks, s)
     else if s_len dst < s_len src then (Panic OutputSmallerThanInput, s)
     else (Return (),
           s\<lparr>heap := wr (heap s) (s_arr dst) (s_off dst) (cbc_encrypt b iv (rd (heap s) src)),
             events := events s @ [CBCEncrypt (s_len src)]\<rparr>))"

definition CryptBlocks_dec :: "block \<Rightarrow> byte list \<Rightarrow> slice \<Rightarrow> slice \<Rightarrow> unit go" where
  "CryptBlocks_dec b iv dst src = (\<lambda>s.
     if blockSize b = 0 then (Panic DivideByZero, s)
     else if s_len src mod blockSize b \<noteq> 0 then (Panic InputNotFullBlocks, s)
     else if s_len dst < s_len src then (Panic OutputSmallerThanInput, s)
     else (Return (),
           s\<lparr>heap := wr (heap s) (s_arr dst) (s_off dst) (cbc_decrypt b iv (rd (heap s) src)),
             events := events s @ [CBCDecrypt (s_len src)]\<rparr>))"

text \<open>
  Modelled from the spec: the padding package \<open>cryptoPadding.PKCS7\<close> is not part of the
  sources; this is the contract of section 4.2. \<open>Pad\<close> appends \<open>p\<close> bytes of value \<open>p\<close>,
  \<open>p = blockSize - (len mod blockSize)\<close>, and fails only for \<open>blockSize < 1\<close>. \<open>Unpad\<close>
  reads the last byte \<open>p\<close> and fails if \<open>p = 0\<close>, \<open>p > blockSize\<close>, \<open>p > len\<close>, one of the last
  \<open>p\<close> bytes is not \<open>p\<close>, or the buffer is shorter than one block (section 4.1, step 6).
\<close>

definition padSize :: "nat \<Rightarrow> nat \<Rightarrow> nat" where
  "padSize n bs = bs - n mod bs"

definition Pad :: "slice \<Rightarrow> nat \<Rightarrow> (error + slice) go" where
  "Pad data bs =
     (if bs < 1 then go_return (Inl InvalidPadding)
      else go_bind (append_bytes data (replicate (padSize (s_len data) bs) (of_nat (padSize (s_len data) bs))))
             (\<lambda>out. go_return (Inr out)))"

definition unpad_ok :: "byte list \<Rightarrow> nat \<Rightarrow> bool" where
  "unpad_ok buf bs =
     (buf \<noteq> [] \<and> bs \<le> length buf \<and>
      (let p = unat (last buf)
       in p \<noteq> 0 \<and> p \<le> bs \<and> p \<le> length buf \<and>
          list_all (\<lambda>x. x = last buf) (drop (length buf - p) buf)))"

definition Unpad :: "slice \<Rightarrow> nat \<Rightarrow> (error + slice) go" where
  "Unpad data bs = (\<lambda>s.
     let buf = rd (heap s) data in
     if unpad_ok buf bs
     then go_bind (reslice data 0 (s_len data - unat (last buf))) (\<lambda>out. go_return (Inr out)) s
     else (Return (Inl InvalidPadding), s))"

text \<open>
  HMAC and the SHA-2 functions belong to the Go library. The platform is a parameter: the
  function computing \<open>HMAC(hash, key, message)\<close> and the width of \<open>int\<close> (32 or 64).
\<close>

datatype hash_alg = SHA256 | SHA384 | SHA512

fun hash_size :: "hash_alg \<Rightarrow> nat" where
  "hash_size SHA256 = 32"
| "hash_size SHA384 = 48"
| "hash_size SHA512 = 64"

record platform =
  intBits :: nat
  hmacSum :: "hash_alg \<Rightarrow> byte list \<Rightarrow> byte list \<Rightarrow> byte list"

text \<open>\<open>subtle.ConstantTimeCompare\<close>: 1 if the two slices have equal contents, else 0.\<close>

definition ConstantTimeCompare :: "slice \<Rightarrow> slice \<Rightarrow> nat go" where
  "ConstantTimeCompare x y = (\<lambda>s.
     (Return (if s_len x = s_len y \<and> rd (heap s) x = rd (heap s) y then 1 else 0), s))"

section \<open>The package: \<open>cbc_hmac.go\<close>\<close>

definition nonceBytes :: nat where
  "nonceBytes = 16"

record cbcAEAD =
  encryptionKey :: "byte list"
  integrityKey :: "byte list"
  authtagBytes :: nat
  blockCipher :: block

text \<open>
  \<open>NewCBCHMAC\<close>. The two key halves are kept as values: the context is read-only after
  construction.
\<close>

definition NewCBCHMAC :: "byte list \<Rightarrow> (byte list \<Rightarrow> error + block) \<Rightarrow> error + cbcAEAD" where
  "NewCBCHMAC key newBlockCipher =
     (let keySize = length key div 2;
          integrityKey' = take keySize key;
          encryptionKey' = drop keySize key
      in case newBlockCipher encryptionKey' of
           Inl err \<Rightarrow> Inl err
         | Inr blk \<Rightarrow> Inr \<lparr>encryptionKey = encryptionKey', integrityKey = integrityKey',
                          authtagBytes = keySize, blockCipher = blk\<rparr>)"

definition NonceSize :: "cbcAEAD \<Rightarrow> nat" where
  "NonceSize ctx = nonceBytes"

definition Overhead :: "cbcAEAD \<Rightarrow> nat" where
  "Overhead ctx = blockSize (blockCipher ctx) + authtagBytes ctx"

text \<open>
  \<open>bitLen\<close>: \<open>len(input)*8\<close> is computed in \<open>int\<close> (wrapping at its width, two's complement),
  converted to \<open>uint64\<close> and written big-endian into a new 8-byte array.
\<close>

definition int_mul8 :: "nat \<Rightarrow> nat \<Rightarrow> int" where
  "int_mul8 w n =
     (let r = (8 * int n) mod 2 ^ w in if r < 2 ^ (w - 1) then r else r - 2 ^ w)"

definition to_uint64 :: "int \<Rightarrow> nat" where
  "to_uint64 x = nat (x mod 2 ^ 64)"

definition PutUint64 :: "nat \<Rightarrow> byte list" where
  "PutUint64 v =
     [of_nat (v div 2 ^ 56), of_nat (v div 2 ^ 48), of_nat (v div 2 ^ 40), of_nat (v div 2 ^ 32),
      of_nat (v div 2 ^ 24), of_nat (v div 2 ^ 16), of_nat (v div 2 ^ 8), of_nat v]"

definition bitLen_bytes :: "nat \<Rightarrow> nat \<Rightarrow> byte list" where
  "bitLen_bytes w n = PutUint64 (to_uint64 (int_mul8 w n))"

definition bitLen :: "platform \<Rightarrow> slice \<Rightarrow> slice go" where
  "bitLen pf input = go_fresh (bitLen_bytes (intBits pf) (s_len input))"

text \<open>The \<open>switch\<close> of \<open>computeAuthTag\<close>; without a matching case \<open>hash\<close> stays nil.\<close>

definition select_hash :: "nat \<Rightarrow> hash_alg option" where
  "select_hash n =
     (if n = 16 then Some SHA256 else if n = 24 then Some SHA384
      else if n = 32 then Some SHA512 else None)"

definition computeAuthTag :: "platform \<Rightarrow> cbcAEAD \<Rightarrow> slice \<Rightarrow> slice \<Rightarrow> slice \<Rightarrow> slice go" where
  "computeAuthTag pf ctx aad nonce ciphertext =
     go_bind (go_append aad nonce) (\<lambda>buffer.
     go_bind (go_append buffer ciphertext) (\<lambda>buffer.
     go_bind (bitLen pf aad) (\<lambda>encodedLen.
     go_bind (go_append buffer encodedLen) (\<lambda>buffer.
       case select_hash (length (integrityKey ctx)) of
         None \<Rightarrow> go_panic NilHash
       | Some hash \<Rightarrow>
           go_bind (\<lambda>s. go_fresh (hmacSum pf hash (integrityKey ctx) (rd (heap s) buffer)) s) (\<lambda>sum.
           reslice sum 0 (authtagBytes ctx))))))"

definition resize :: "slice \<Rightarrow> nat \<Rightarrow> (slice \<times> slice) go" where
  "resize in' n =
     go_bind (if s_cap in' \<ge> n then reslice in' 0 n
              else go_bind (go_make n) (\<lambda>head. go_bind (go_copy head in') (\<lambda>_. go_return head)))
       (\<lambda>head. go_bind (reslice head (s_len in') (s_len head)) (\<lambda>tail. go_return (head, tail)))"

definition Seal :: "platform \<Rightarrow> cbcAEAD \<Rightarrow> slice \<Rightarrow> slice \<Rightarrow> slice \<Rightarrow> slice \<Rightarrow> slice go" where
  "Seal pf ctx dst nonce plaintext data =
     go_bind (go_make (s_len plaintext + Overhead ctx)) (\<lambda>buf.
     go_bind (reslice buf 0 (s_len plaintext)) (\<lambda>ciphertext.
     go_bind (go_copy ciphertext plaintext) (\<lambda>_.
     go_bind (NewCBC (blockCipher ctx) nonce) (\<lambda>cbc.
     go_bind (Pad ciphertext (blockSize (blockCipher ctx))) (\<lambda>r.
       case r of
         Inl err \<Rightarrow> go_panic PaddingFailed
       | Inr ciphertext \<Rightarrow>
           go_bind (CryptBlocks_enc (blockCipher ctx) cbc ciphertext ciphertext) (\<lambda>_.
           go_bind (computeAuthTag pf ctx data nonce ciphertext) (\<lambda>authtag.
           go_bind (resize dst (s_len dst + s_len ciphertext + s_len authtag)) (\<lambda>(ret, out).
           go_bind (go_copy out ciphertext) (\<lambda>_.
           go_bind (reslice out (s_len ciphertext) (s_len out)) (\<lambda>out'.
           go_bind (go_copy out' authtag) (\<lambda>_.
           go_return ret)))))))))))"

definition Open :: "platform \<Rightarrow> cbcAEAD \<Rightarrow> slice \<Rightarrow> slice \<Rightarrow> slice \<Rightarrow> slice \<Rightarrow> (error + slice) go" where
  "Open pf ctx dst nonce ciphertext data =
     (if s_len ciphertext < authtagBytes ctx then go_return (Inl CiphertextTooShort)
      else
        go_bind (reslice ciphertext 0 (s_len ciphertext - authtagBytes ctx)) (\<lambda>body.
        go_bind (computeAuthTag pf ctx data nonce body) (\<lambda>expectedTag.
        go_bind (reslice ciphertext (s_len ciphertext - authtagBytes ctx) (s_len ciphertext)) (\<lambda>receivedTag.
        go_bind (ConstantTimeCompare expectedTag receivedTag) (\<lambda>match.
          if match \<noteq> 1 then go_return (Inl AuthenticationFailed)
          else
            go_bind (NewCBC (blockCipher ctx) nonce) (\<lambda>cbc.
            go_bind (CryptBlocks_dec (blockCipher ctx) cbc body body) (\<lambda>_.
            go_bind (Unpad body (blockSize (blockCipher ctx))) (\<lambda>r.
              case r of
                Inl err \<Rightarrow> go_return (Inl err)
              | Inr plaintext \<Rightarrow>
                  go_bind (resize dst (s_len dst + s_len plaintext)) (\<lambda>(ret, out).
                  go_bind (go_copy out plaintext) (\<lambda>_.
                  go_return (Inr ret)))))))))))"


section \<open>The specification's formulas\<close>

text \<open>
  Section 4.3 of the specification: \<open>encode64\<close> is the big-endian 8-byte encoding of a
  number, the hash is chosen by the length of the integrity key, and the tag is the HMAC
  of \<open>aad || nonce || ciphertext || encode64(len(aad) * 8)\<close> cut to the length of the key.
\<close>

fun be_bytes :: "nat \<Rightarrow> nat \<Rightarrow> byte list" where
  "be_bytes 0 v = []"
| "be_bytes (Suc n) v = be_bytes n (v div 256) @ [of_nat (v mod 256)]"

definition encode64 :: "nat \<Rightarrow> byte list" where
  "encode64 v = be_bytes 8 v"

definition spec_hash :: "nat \<Rightarrow> hash_alg" where
  "spec_hash n = (if n = 16 then SHA256 else if n = 24 then SHA384 else SHA512)"

definition spec_tag ::
  "(hash_alg \<Rightarrow> byte list \<Rightarrow> byte list \<Rightarrow> byte list) \<Rightarrow> byte list \<Rightarrow> byte list \<Rightarrow> byte list \<Rightarrow> byte list \<Rightarrow> byte list" where
  "spec_tag H ikey aad nonce ct =
     take (length ikey) (H (spec_hash (length ikey)) ikey (aad @ nonce @ ct @ encode64 (length aad * 8)))"

text \<open>Section 4.2: the padded buffer, as a value.\<close>

definition pkcs7 :: "byte list \<Rightarrow> nat \<Rightarrow> byte list" where
  "pkcs7 buf bs = buf @ replicate (padSize (length buf) bs) (of_nat (padSize (length buf) bs))"

section \<open>Well-formed inputs\<close>

text \<open>
  A context has a supported key when the integrity key has 16, 24 or 32 bytes and the tag
  length is the key length, as \<open>NewCBCHMAC\<close> sets it.
\<close>

definition supported :: "cbcAEAD \<Rightarrow> bool" where
  "supported ctx =
     (length (integrityKey ctx) \<in> {16, 24, 32} \<and> authtagBytes ctx = length (integrityKey ctx))"

text \<open>A block cipher maps blocks to blocks, and decryption inverts encryption.\<close>

definition block_ok :: "block \<Rightarrow> bool" where
  "block_ok b =
     (\<forall>x. length x = blockSize b \<longrightarrow>
        length (encryptBlock b x) = blockSize b \<and> length (decryptBlock b x) = blockSize b \<and>
        decryptBlock b (encryptBlock b x) = x)"

text \<open>HMAC returns as many bytes as the hash it is built on.\<close>

definition hmac_ok :: "platform \<Rightarrow> bool" where
  "hmac_ok pf = (\<forall>alg key msg. length (hmacSum pf alg key msg) = hash_size alg)"

text \<open>
  Regions of the heap: an array and a half-open range of indices. The bytes of a slice
  are the range it shows; its spare capacity is the range \<open>append\<close> and a longer reslice
  can reach.
\<close>

type_synonym region = "nat \<times> nat \<times> nat"

definition bytes_rg :: "slice \<Rightarrow> region" where
  "bytes_rg sl = (s_arr sl, s_off sl, s_off sl + s_len sl)"

definition spare_rg :: "slice \<Rightarrow> region" where
  "spare_rg sl = (s_arr sl, s_off sl + s_len sl, s_off sl + s_cap sl)"

fun apart :: "region \<Rightarrow> region \<Rightarrow> bool" where
  "apart (a, l, u) (b, l', u') = (a \<noteq> b \<or> u \<le> l' \<or> u' \<le> l \<or> u \<le> l \<or> u' \<le> l')"

fun cells :: "region \<Rightarrow> (nat \<times> nat) set" where
  "cells (a, l, u) = {a} \<times> {l..<u}"

text \<open>
  \<open>frame W h h'\<close>: the heap \<open>h'\<close> extends \<open>h\<close>, and the arrays of \<open>h\<close> are unchanged outside
  the cells \<open>W\<close>.
\<close>

definition frame :: "(nat \<times> nat) set \<Rightarrow> byte list list \<Rightarrow> byte list list \<Rightarrow> bool" where
  "frame W h h' =
     (length h \<le> length h' \<and>
      (\<forall>a<length h. length (h' ! a) = length (h ! a) \<and>
         (\<forall>i<length (h ! a). (a, i) \<notin> W \<longrightarrow> h' ! a ! i = h ! a ! i)))"

section \<open>Values computed by the package\<close>

text \<open>
  The bytes \<open>computeAuthTag\<close> returns and the bytes \<open>Seal\<close> appends, as functions of the
  contents of the arguments; what \<open>Unpad\<close> returns; a read at raw coordinates.
\<close>

definition tag_bytes :: "platform \<Rightarrow> cbcAEAD \<Rightarrow> byte list \<Rightarrow> byte list \<Rightarrow> byte list \<Rightarrow> byte list" where
  "tag_bytes pf ctx aad nonce ct =
     take (authtagBytes ctx)
       (hmacSum pf (spec_hash (length (integrityKey ctx))) (integrityKey ctx)
          (aad @ nonce @ ct @ bitLen_bytes (intBits pf) (length aad)))"

definition sealed_bytes :: "platform \<Rightarrow> cbcAEAD \<Rightarrow> byte list \<Rightarrow> byte list \<Rightarrow> byte list \<Rightarrow> byte list" where
  "sealed_bytes pf ctx nonce pt aad =
     (let c = cbc_encrypt (blockCipher ctx) nonce (pkcs7 pt (blockSize (blockCipher ctx)))
      in c @ tag_bytes pf ctx aad nonce c)"

definition unpad_value :: "byte list \<Rightarrow> byte list" where
  "unpad_value buf = take (length buf - unat (last buf)) buf"

definition rdr :: "byte list list \<Rightarrow> nat \<Rightarrow> nat \<Rightarrow> nat \<Rightarrow> byte list" where
  "rdr h a off n = take n (drop off (arr_of h a))"

section \<open>Sample inputs\<close>

text \<open>
  A block cipher with blocks of \<open>bs\<close> bytes that adds one to every byte, a factory with
  the key check of AES (16, 24 or 32 bytes), a factory without a key check, and a keyed
  checksum standing in for HMAC.
\<close>

definition rot_block :: "nat \<Rightarrow> block" where
  "rot_block bs = \<lparr>blockSize = bs, encryptBlock = map (\<lambda>x. x + 1), decryptBlock = map (\<lambda>x. x - 1)\<rparr>"

definition keyed_factory :: "nat \<Rightarrow> byte list \<Rightarrow> error + block" where
  "keyed_factory bs key =
     (if length key = 16 \<or> length key = 24 \<or> length key = 32 then Inr (rot_block bs)
      else Inl (InvalidKey (length key)))"

definition lax_factory :: "nat \<Rightarrow> byte list \<Rightarrow> error + block" where
  "lax_factory bs key = Inr (rot_block bs)"

definition sum_hmac :: "hash_alg \<Rightarrow> byte list \<Rightarrow> byte list \<Rightarrow> byte list" where
  "sum_hmac alg key msg = replicate (hash_size alg) (sum_list (key @ msg))"

definition pf64 :: platform where
  "pf64 = \<lparr>intBits = 64, hmacSum = sum_hmac\<rparr>"

definition pf32 :: platform where
  "pf32 = \<lparr>intBits = 32, hmacSum = sum_hmac\<rparr>"

definition ctx16 :: "nat \<Rightarrow> cbcAEAD" where
  "ctx16 bs = \<lparr>encryptionKey = replicate 16 2, integrityKey = replicate 16 1,
               authtagBytes = 16, blockCipher = rot_block bs\<rparr>"

definition ctx15 :: cbcAEAD where
  "ctx15 = \<lparr>encryptionKey = replicate 16 1, integrityKey = replicate 15 1,
            authtagBytes = 15, blockCipher = rot_block 16\<rparr>"

text \<open>
  A heap of three arrays: a buffer of 64 bytes, a nonce of 16 bytes and four bytes of
  associated data; and slices on them.
\<close>

definition st0 :: state where
  "st0 = \<lparr>heap = [replicate 64 7, replicate 16 9, [1, 2, 3, 4]], events = []\<rparr>"

definition buf_pt :: slice where
  "buf_pt = \<lparr>s_arr = 0, s_off = 0, s_len = 1, s_cap = 64\<rparr>"

definition buf_dst :: slice where
  "buf_dst = \<lparr>s_arr = 0, s_off = 0, s_len = 0, s_cap = 64\<rparr>"

definition nonce16 :: slice where
  "nonce16 = \<lparr>s_arr = 1, s_off = 0, s_len = 16, s_cap = 16\<rparr>"

definition aad4 :: slice where
  "aad4 = \<lparr>s_arr = 2, s_off = 0, s_len = 4, s_cap = 4\<rparr>"

section \<open>Basic facts\<close>

lemma go_bind_Return: "m s = (Return x, s') \<Longrightarrow> go_bind m f s = f x s'"
  by (simp add: go_bind_def)

lemma go_bind_Panic: "m s = (Panic p, s') \<Longrightarrow> go_bind m f s = (Panic p, s')"
  by (simp add: go_bind_def)

lemma append_bytes_returns: "\<exists>sl' s'. append_bytes sl xs s = (Return sl', s')"
  by (simp add: append_bytes_def Let_def)

lemma go_append_returns: "\<exists>sl' s'. go_append sl src s = (Return sl', s')"
  by (simp add: go_append_def append_bytes_returns)

lemma bitLen_returns: "\<exists>sl' s'. bitLen pf input s = (Return sl', s')"
  by (simp add: bitLen_def go_fresh_def)

lemma computeAuthTag_NilHash:
  assumes "select_hash (length (integrityKey ctx)) = None"
  shows "fst (computeAuthTag pf ctx aad nonce ct s) = Panic NilHash"
proof -
  obtain b1 s1 where 1: "go_append aad nonce s = (Return b1, s1)"
    using go_append_returns by blast
  obtain b2 s2 where 2: "go_append b1 ct s1 = (Return b2, s2)"
    using go_append_returns by blast
  obtain e s3 where 3: "bitLen pf aad s2 = (Return e, s3)"
    using bitLen_returns by blast
  obtain b3 s4 where 4: "go_append b2 e s3 = (Return b3, s4)"
    using go_append_returns by blast
  show ?thesis
    by (simp add: computeAuthTag_def go_bind_Return 1 2 3 4 assms go_panic_def)
qed

lemma select_hash_None: "n \<notin> {16, 24, 32} \<Longrightarrow> select_hash n = None"
  by (simp add: select_hash_def)

section \<open>The heap: validity, reads, writes, frames\<close>

lemma arr_of_alloc: "arr_of (h @ [x]) b = (if b = length h then x else arr_of h b)"
  by (auto simp: arr_of_def nth_append)

lemma valid_len: "valid h sl \<Longrightarrow> length (rd h sl) = s_len sl"
  by (auto simp: valid_def rd_def)

lemma rd_nth: "valid h sl \<Longrightarrow> j < s_len sl \<Longrightarrow> rd h sl ! j = arr_of h (s_arr sl) ! (s_off sl + j)"
  by (auto simp: valid_def rd_def)

lemma valid_old: "valid h sl \<Longrightarrow> 0 < s_cap sl \<Longrightarrow> s_arr sl < length h"
  by (auto simp: valid_def arr_of_def split: if_splits)

lemma valid_alloc: "valid h sl \<Longrightarrow> valid (h @ [x]) sl"
  by (cases "s_arr sl < length h") (auto simp: valid_def arr_of_def nth_append)

lemma rd_alloc: "valid h sl \<Longrightarrow> rd (h @ [x]) sl = rd h sl"
  by (cases "s_arr sl < length h") (auto simp: valid_def rd_def arr_of_def nth_append)

lemma frame_refl: "frame W h h"
  by (simp add: frame_def)

lemma frame_mono: "frame W h h' \<Longrightarrow> W \<subseteq> V \<Longrightarrow> frame V h h'"
  by (auto simp: frame_def)

lemma frame_trans:
  assumes "frame W h h'" and "frame W' h' h''"
    and "\<And>c. c \<in> W' \<Longrightarrow> fst c < length h \<Longrightarrow> c \<in> W"
  shows "frame W h h''"
  unfolding frame_def
proof (intro conjI allI impI)
  show "length h \<le> length h''" using assms(1,2) by (simp add: frame_def)
  fix a assume a: "a < length h"
  then have a': "a < length h'" using assms(1) by (simp add: frame_def)
  show l: "length (h'' ! a) = length (h ! a)" using assms(1,2) a a' by (simp add: frame_def)
  fix i assume i: "i < length (h ! a)" and n: "(a, i) \<notin> W"
  have "(a, i) \<notin> W'" using assms(3) [of "(a, i)"] a n by auto
  moreover have "i < length (h' ! a)" using assms(1) a i by (simp add: frame_def)
  ultimately have "h'' ! a ! i = h' ! a ! i" using assms(2) a' by (simp add: frame_def)
  also have "\<dots> = h ! a ! i" using assms(1) a i n by (simp add: frame_def)
  finally show "h'' ! a ! i = h ! a ! i" .
qed

lemma frame_alloc: "frame W h (h @ [x])"
  by (simp add: frame_def nth_append)

lemma length_wr: "length (wr h a i xs) = length h"
  by (simp add: wr_def)

lemma arr_of_wr_len:
  "i + length xs \<le> length (arr_of h a) \<Longrightarrow> length (arr_of (wr h a i xs) b) = length (arr_of h b)"
  by (auto simp: wr_def arr_of_def nth_list_update)

lemma arr_of_wr_nth:
  "i + length xs \<le> length (arr_of h a) \<Longrightarrow> j < length (arr_of h b) \<Longrightarrow>
   arr_of (wr h a i xs) b ! j =
     (if b = a \<and> i \<le> j \<and> j < i + length xs then xs ! (j - i) else arr_of h b ! j)"
  by (auto simp: wr_def arr_of_def nth_list_update nth_append split: if_splits)

lemma frame_wr:
  "i + length xs \<le> length (arr_of h a) \<Longrightarrow> frame (cells (a, i, i + length xs)) h (wr h a i xs)"
  unfolding frame_def
proof (intro conjI allI impI)
  assume b: "i + length xs \<le> length (arr_of h a)"
  show "length h \<le> length (wr h a i xs)" by (simp add: length_wr)
  fix b assume lt: "b < length h"
  from arr_of_wr_len [OF b, of b] lt show "length (wr h a i xs ! b) = length (h ! b)"
    by (simp add: arr_of_def length_wr)
  fix j assume j: "j < length (h ! b)" and nc: "(b, j) \<notin> cells (a, i, i + length xs)"
  from arr_of_wr_nth [OF b, of j b] lt j nc show "wr h a i xs ! b ! j = h ! b ! j"
    by (auto simp: arr_of_def length_wr)
qed

lemma valid_frame: "frame W h h' \<Longrightarrow> valid h sl \<Longrightarrow> valid h' sl"
  by (auto simp: frame_def valid_def arr_of_def split: if_splits)

lemma rd_frame:
  assumes f: "frame W h h'" and v: "valid h sl" and d: "cells (bytes_rg sl) \<inter> W = {}"
  shows "rd h' sl = rd h sl"
proof (rule nth_equalityI)
  from valid_frame [OF f v] v show l: "length (rd h' sl) = length (rd h sl)"
    by (simp add: valid_len)
  fix j assume "j < length (rd h' sl)"
  then have j: "j < s_len sl" using valid_frame [OF f v] by (simp add: valid_len)
  then have c: "0 < s_cap sl" using v by (simp add: valid_def)
  have a: "s_arr sl < length h" using valid_old [OF v c] .
  have i: "s_off sl + j < length (h ! s_arr sl)" using v j a by (simp add: valid_def arr_of_def)
  have "(s_arr sl, s_off sl + j) \<in> cells (bytes_rg sl)" using j by (simp add: bytes_rg_def)
  then have "(s_arr sl, s_off sl + j) \<notin> W" using d by blast
  then have "h' ! s_arr sl ! (s_off sl + j) = h ! s_arr sl ! (s_off sl + j)"
    using f a i by (simp add: frame_def)
  moreover have "s_arr sl < length h'" using f a by (simp add: frame_def)
  ultimately show "rd h' sl ! j = rd h sl ! j"
    using rd_nth [OF v j] rd_nth [OF valid_frame [OF f v] j] a by (simp add: arr_of_def)
qed

lemma apart_cells: "apart r r' \<longleftrightarrow> cells r \<inter> cells r' = {}"
proof (cases r; cases r')
  fix a l u b l' u' assume r: "r = (a, l, u)" "r' = (b, l', u')"
  show ?thesis
  proof
    assume "apart r r'" then show "cells r \<inter> cells r' = {}" using r by auto
  next
    assume e: "cells r \<inter> cells r' = {}"
    show "apart r r'"
    proof (rule ccontr)
      assume "\<not> apart r r'"
      then have "a = b" "l' < u" "l < u'" "l < u" "l' < u'" using r by auto
      then have "(a, max l l') \<in> cells r \<inter> cells r'" using r by auto
      with e show False by blast
    qed
  qed
qed

section \<open>\<open>append\<close> and \<open>copy\<close>\<close>

lemma rd_wr_same:
  assumes "i + length xs \<le> length (arr_of h a)" "s_arr sl = a" "s_off sl = i" "s_len sl = length xs"
  shows "rd (wr h a i xs) sl = xs"
proof (rule nth_equalityI)
  have "length (arr_of (wr h a i xs) a) = length (arr_of h a)"
    using assms(1) by (rule arr_of_wr_len)
  then show "length (rd (wr h a i xs) sl) = length xs"
    using assms by (simp add: rd_def)
  fix j assume "j < length (rd (wr h a i xs) sl)"
  then have j: "j < length xs" using assms by (simp add: rd_def)
  have "rd (wr h a i xs) sl ! j = arr_of (wr h a i xs) a ! (i + j)"
    using assms j arr_of_wr_len [OF assms(1), of a] by (simp add: rd_def)
  also have "\<dots> = xs ! j"
    using arr_of_wr_nth [OF assms(1), of "i + j" a] assms(1) j by simp
  finally show "rd (wr h a i xs) sl ! j = xs ! j" .
qed

lemma valid_wr:
  "i + length xs \<le> length (arr_of h a) \<Longrightarrow> valid (wr h a i xs) sl = valid h sl"
  by (simp add: valid_def arr_of_wr_len)

lemma rd_split:
  assumes "n \<le> s_len sl"
  shows "rd h sl = rd h (sl\<lparr>s_len := n\<rparr>) @ rd h (sl\<lparr>s_off := s_off sl + n, s_len := s_len sl - n\<rparr>)"
proof -
  have "take (n + (s_len sl - n)) (drop (s_off sl) (arr_of h (s_arr sl)))
        = take n (drop (s_off sl) (arr_of h (s_arr sl)))
          @ take (s_len sl - n) (drop n (drop (s_off sl) (arr_of h (s_arr sl))))"
    by (rule take_add)
  then show ?thesis using assms by (simp add: rd_def add.commute)
qed

lemma append_bytes_spec:
  assumes v: "valid (heap s) sl"
  shows "\<exists>sl' s'. append_bytes sl xs s = (Return sl', s')
      \<and> valid (heap s') sl'
      \<and> rd (heap s') sl' = rd (heap s) sl @ xs
      \<and> s_len sl' = s_len sl + length xs
      \<and> events s' = events s
      \<and> frame (cells (spare_rg sl)) (heap s) (heap s')
      \<and> (s_arr sl' = length (heap s) \<or>
           (s_arr sl' = s_arr sl \<and> s_off sl' = s_off sl \<and> s_cap sl' = s_cap sl))"
proof (cases "s_len sl + length xs \<le> s_cap sl")
  case True
  let ?h = "heap s" and ?i = "s_off sl + s_len sl"
  let ?h' = "wr ?h (s_arr sl) ?i xs"
  let ?sl' = "sl\<lparr>s_len := s_len sl + length xs\<rparr>"
  have b: "?i + length xs \<le> length (arr_of ?h (s_arr sl))"
    using v True by (simp add: valid_def)
  have e: "append_bytes sl xs s = (Return ?sl', s\<lparr>heap := ?h'\<rparr>)"
    using True by (simp add: append_bytes_def Let_def)
  have v': "valid ?h' ?sl'"
    using v True by (simp add: valid_wr [OF b]) (simp add: valid_def)
  have f: "frame (cells (spare_rg sl)) ?h ?h'"
    by (rule frame_mono [OF frame_wr [OF b]]) (use True in \<open>auto simp: spare_rg_def\<close>)
  have r: "rd ?h' ?sl' = rd ?h sl @ xs"
  proof -
    have 1: "rd ?h' ?sl' = rd ?h' (?sl'\<lparr>s_len := s_len sl\<rparr>)
               @ rd ?h' (?sl'\<lparr>s_off := s_off ?sl' + s_len sl, s_len := s_len ?sl' - s_len sl\<rparr>)"
      by (rule rd_split) simp
    have 2: "rd ?h' (?sl'\<lparr>s_len := s_len sl\<rparr>) = rd ?h sl"
      using rd_frame [OF frame_wr [OF b] v] by (simp add: bytes_rg_def Int_def)
    have 3: "rd ?h' (?sl'\<lparr>s_off := s_off ?sl' + s_len sl, s_len := s_len ?sl' - s_len sl\<rparr>) = xs"
      by (rule rd_wr_same [OF b]) simp_all
    show ?thesis using 1 2 3 by simp
  qed
  show ?thesis using e v' r f by auto
next
  case False
  let ?h = "heap s" and ?n = "s_len sl + length xs"
  let ?g = "growcap (s_cap sl) ?n"
  let ?new = "rd ?h sl @ xs @ replicate (?g - ?n) 0"
  let ?sl' = "\<lparr>s_arr = length ?h, s_off = 0, s_len = ?n, s_cap = ?g\<rparr>"
  have g: "?n \<le> ?g" by (simp add: growcap_def)
  have e: "append_bytes sl xs s = (Return ?sl', s\<lparr>heap := ?h @ [?new]\<rparr>)"
    using False by (simp add: append_bytes_def Let_def)
  have l: "length ?new = ?g" using g by (simp add: valid_len [OF v])
  have v': "valid (?h @ [?new]) ?sl'"
    using g l by (simp add: valid_def arr_of_alloc)
  have "rd (?h @ [?new]) ?sl' = take ?n ?new"
    by (simp add: rd_def [of _ ?sl'] arr_of_alloc)
  also have "\<dots> = rd ?h sl @ xs"
    using valid_len [OF v] by simp
  finally have r: "rd (?h @ [?new]) ?sl' = rd ?h sl @ xs" .
  show ?thesis using e v' r frame_alloc by auto
qed

lemma go_copy_spec:
  assumes d: "valid (heap s) d" and src: "valid (heap s) src" and le: "s_len src \<le> s_len d"
  shows "\<exists>s'. go_copy d src s = (Return (s_len src), s')
      \<and> events s' = events s
      \<and> length (heap s') = length (heap s)
      \<and> frame (cells (s_arr d, s_off d, s_off d + s_len src)) (heap s) (heap s')
      \<and> rd (heap s') (d\<lparr>s_len := s_len src\<rparr>) = rd (heap s) src"
proof -
  let ?h = "heap s" and ?xs = "rd (heap s) src"
  let ?h' = "wr ?h (s_arr d) (s_off d) ?xs"
  have m: "min (s_len d) (s_len src) = s_len src" using le by simp
  have lx: "length ?xs = s_len src" by (rule valid_len [OF src])
  have e: "go_copy d src s = (Return (s_len src), s\<lparr>heap := ?h'\<rparr>)"
    by (simp add: go_copy_def Let_def m lx)
  have b: "s_off d + length ?xs \<le> length (arr_of ?h (s_arr d))"
    using d le lx by (simp add: valid_def)
  have f: "frame (cells (s_arr d, s_off d, s_off d + s_len src)) ?h ?h'"
    using frame_wr [OF b] lx by simp
  have r: "rd ?h' (d\<lparr>s_len := s_len src\<rparr>) = ?xs"
    by (rule rd_wr_same [OF b]) (simp_all add: lx)
  show ?thesis using e f r by (simp add: length_wr)
qed

section \<open>Padding and CBC mode\<close>

lemma padSize_bounds: "1 \<le> bs \<Longrightarrow> 1 \<le> padSize n bs \<and> padSize n bs \<le> bs"
  by (simp add: padSize_def Suc_leI)

lemma padSize_full: "1 \<le> bs \<Longrightarrow> (n + padSize n bs) mod bs = 0"
proof -
  assume b: "1 \<le> bs"
  define q r where "q = n div bs" and "r = n mod bs"
  have n: "n = bs * q + r" by (simp add: q_def r_def)
  have r: "r < bs" using b by (simp add: r_def)
  have "n + (bs - r) = bs * (q + 1)" using n r by simp
  then have "(n + (bs - r)) mod bs = 0" by (metis mod_mult_self1_is_0)
  then show ?thesis by (simp add: padSize_def r_def)
qed

lemma mod_drop_block: "(bs::nat) \<le> n \<Longrightarrow> n mod bs = 0 \<Longrightarrow> (n - bs) mod bs = 0"
  using le_mod_geq [of bs n] by simp

lemma full_block: "src \<noteq> [] \<Longrightarrow> length src mod bs = 0 \<Longrightarrow> bs \<le> length src"
  by (rule ccontr) simp

lemma length_pkcs7: "length (pkcs7 buf bs) = length buf + padSize (length buf) bs"
  by (simp add: pkcs7_def)

lemma length_xor_bytes: "length (xor_bytes xs ys) = min (length xs) (length ys)"
  by (simp add: xor_bytes_def)

lemma xor_bytes_cancel: "length xs = length ys \<Longrightarrow> xor_bytes (xor_bytes xs ys) ys = xs"
proof (induction xs ys rule: list_induct2)
  case Nil then show ?case by (simp add: xor_bytes_def)
next
  case (Cons x xs y ys)
  have "(x XOR y) XOR y = x" by (simp add: xor.assoc)
  with Cons show ?case by (simp add: xor_bytes_def)
qed

lemma length_cbc_encrypt:
  "\<lbrakk>block_ok b; length iv = blockSize b; length src mod blockSize b = 0\<rbrakk>
   \<Longrightarrow> length (cbc_encrypt b iv src) = length src"
proof (induction b iv src rule: cbc_encrypt.induct)
  case (1 b iv src)
  show ?case
  proof (cases "blockSize b = 0 \<or> src = []")
    case True
    then show ?thesis using "1.prems"(3) by (auto simp: cbc_encrypt.simps [of b iv src] cbc_decrypt.simps [of b iv src] cbc_decrypt.simps [of b iv "[]"])
  next
    case False
    let ?bs = "blockSize b"
    let ?x = "xor_bytes (take ?bs src) iv"
    let ?c = "encryptBlock b ?x"
    have ge: "?bs \<le> length src"
      using full_block [of src ?bs] False "1.prems"(3) by auto
    then have lx: "length ?x = ?bs" using "1.prems" by (simp add: length_xor_bytes)
    then have lc: "length ?c = ?bs" using "1.prems"(1) by (simp add: block_ok_def)
    have m: "length (drop ?bs src) mod ?bs = 0"
      using "1.prems"(3) ge by (simp add: mod_drop_block)
    have "length (cbc_encrypt b ?c (drop ?bs src)) = length (drop ?bs src)"
      using "1.IH" [OF False refl "1.prems"(1) lc m] .
    then show ?thesis
      using False lc ge by (simp add: cbc_encrypt.simps [of b iv src] Let_def)
  qed
qed

lemma length_cbc_decrypt:
  "\<lbrakk>block_ok b; length iv = blockSize b; length src mod blockSize b = 0\<rbrakk>
   \<Longrightarrow> length (cbc_decrypt b iv src) = length src"
proof (induction b iv src rule: cbc_decrypt.induct)
  case (1 b iv src)
  show ?case
  proof (cases "blockSize b = 0 \<or> src = []")
    case True
    then show ?thesis using "1.prems"(3) by (auto simp: cbc_encrypt.simps [of b iv src] cbc_decrypt.simps [of b iv src] cbc_decrypt.simps [of b iv "[]"])
  next
    case False
    let ?bs = "blockSize b"
    let ?c = "take ?bs src"
    have ge: "?bs \<le> length src"
      using full_block [of src ?bs] False "1.prems"(3) by auto
    then have lc: "length ?c = ?bs" by simp
    then have ld: "length (decryptBlock b ?c) = ?bs" using "1.prems"(1) by (simp add: block_ok_def)
    have m: "length (drop ?bs src) mod ?bs = 0"
      using "1.prems"(3) ge by (simp add: mod_drop_block)
    have "length (cbc_decrypt b ?c (drop ?bs src)) = length (drop ?bs src)"
      using "1.IH" [OF False refl "1.prems"(1) lc m] .
    then show ?thesis
      using False ld ge "1.prems"(2)
      by (simp add: cbc_decrypt.simps [of b iv src] Let_def length_xor_bytes)
  qed
qed

lemma cbc_roundtrip:
  "\<lbrakk>block_ok b; length iv = blockSize b; length src mod blockSize b = 0\<rbrakk>
   \<Longrightarrow> cbc_decrypt b iv (cbc_encrypt b iv src) = src"
proof (induction b iv src rule: cbc_encrypt.induct)
  case (1 b iv src)
  show ?case
  proof (cases "blockSize b = 0 \<or> src = []")
    case True
    then show ?thesis using "1.prems"(3) by (auto simp: cbc_encrypt.simps [of b iv src] cbc_decrypt.simps [of b iv src] cbc_decrypt.simps [of b iv "[]"])
  next
    case False
    let ?bs = "blockSize b"
    let ?p = "take ?bs src"
    let ?x = "xor_bytes ?p iv"
    let ?c = "encryptBlock b ?x"
    let ?rest = "cbc_encrypt b ?c (drop ?bs src)"
    have ge: "?bs \<le> length src"
      using full_block [of src ?bs] False "1.prems"(3) by auto
    then have lp: "length ?p = length iv" using "1.prems" by simp
    then have lx: "length ?x = ?bs" using "1.prems" by (simp add: length_xor_bytes)
    then have lc: "length ?c = ?bs" and dc: "decryptBlock b ?c = ?x"
      using "1.prems"(1) by (simp_all add: block_ok_def)
    have m: "length (drop ?bs src) mod ?bs = 0"
      using "1.prems"(3) ge by (simp add: mod_drop_block)
    have ih: "cbc_decrypt b ?c ?rest = drop ?bs src"
      using "1.IH" [OF False refl "1.prems"(1) lc m] .
    have e: "cbc_encrypt b iv src = ?c @ ?rest"
      using False by (simp add: cbc_encrypt.simps [of b iv src] Let_def)
    have cne: "?c \<noteq> []" using lc False by auto
    have "cbc_decrypt b iv (?c @ ?rest) = xor_bytes (decryptBlock b ?c) iv @ cbc_decrypt b ?c ?rest"
      using False cne lc by (simp add: cbc_decrypt.simps [of b iv "?c @ ?rest"] Let_def)
    also have "\<dots> = ?p @ drop ?bs src"
      using dc ih xor_bytes_cancel [OF lp] by simp
    finally show ?thesis using e by simp
  qed
qed

section \<open>The tag computation\<close>

lemma go_append_spec:
  assumes v: "valid (heap s) sl"
  shows "\<exists>sl' s'. go_append sl src s = (Return sl', s')
      \<and> valid (heap s') sl'
      \<and> rd (heap s') sl' = rd (heap s) sl @ rd (heap s) src
      \<and> s_len sl' = s_len sl + length (rd (heap s) src)
      \<and> events s' = events s
      \<and> frame (cells (spare_rg sl)) (heap s) (heap s')
      \<and> (s_arr sl' = length (heap s) \<or>
           (s_arr sl' = s_arr sl \<and> s_off sl' = s_off sl \<and> s_cap sl' = s_cap sl))"
  using append_bytes_spec [OF v, of "rd (heap s) src"] by (simp add: go_append_def)

lemma spare_grown:
  assumes "length h0 \<le> s_arr b \<or>
           (s_arr b = s_arr a \<and> s_off b = s_off a \<and> s_cap b = s_cap a \<and> s_len a \<le> s_len b)"
    and "c \<in> cells (spare_rg b)" and "fst c < length h0"
  shows "c \<in> cells (spare_rg a)"
  using assms by (auto simp: spare_rg_def)

lemma frame_length: "frame W h h' \<Longrightarrow> length h \<le> length h'"
  by (simp add: frame_def)

lemma select_hash_size:
  "select_hash n = Some alg \<Longrightarrow> n \<le> hash_size alg \<and> alg = spec_hash n \<and> n \<in> {16, 24, 32}"
  by (auto simp: select_hash_def spec_hash_def split: if_splits)

lemma computeAuthTag_spec:
  assumes va: "valid (heap s) aad" and vn: "valid (heap s) nonce" and vc: "valid (heap s) ct"
    and hs: "select_hash (length (integrityKey ctx)) = Some alg"
    and kl: "authtagBytes ctx \<le> hash_size alg" and ho: "hmac_ok pf"
    and ap: "apart (bytes_rg ct) (spare_rg aad)"
  shows "\<exists>tag s'. computeAuthTag pf ctx aad nonce ct s = (Return tag, s')
     \<and> valid (heap s') tag \<and> s_len tag = authtagBytes ctx
     \<and> rd (heap s') tag =
         take (authtagBytes ctx)
           (hmacSum pf alg (integrityKey ctx)
              (rd (heap s) aad @ rd (heap s) nonce @ rd (heap s) ct
               @ bitLen_bytes (intBits pf) (s_len aad)))
     \<and> length (heap s) \<le> s_arr tag \<and> s_arr tag < length (heap s')
     \<and> events s' = events s
     \<and> frame (cells (spare_rg aad)) (heap s) (heap s')"
proof -
  let ?h0 = "heap s" and ?W = "cells (spare_rg aad)"
  let ?BL = "bitLen_bytes (intBits pf) (s_len aad)"
  obtain b1 s1 where 1: "go_append aad nonce s = (Return b1, s1)"
    and v1: "valid (heap s1) b1" and r1: "rd (heap s1) b1 = rd ?h0 aad @ rd ?h0 nonce"
    and e1: "events s1 = events s" and f1: "frame ?W ?h0 (heap s1)"
    and g1: "s_arr b1 = length ?h0 \<or> (s_arr b1 = s_arr aad \<and> s_off b1 = s_off aad \<and> s_cap b1 = s_cap aad)"
    and l1: "s_len b1 = s_len aad + length (rd ?h0 nonce)"
    using go_append_spec [OF va, of nonce] by blast
  have G1: "length ?h0 \<le> s_arr b1 \<or>
      (s_arr b1 = s_arr aad \<and> s_off b1 = s_off aad \<and> s_cap b1 = s_cap aad \<and> s_len aad \<le> s_len b1)"
    using g1 l1 by auto
  have vc1: "valid (heap s1) ct" using valid_frame [OF f1 vc] .
  have rc1: "rd (heap s1) ct = rd ?h0 ct"
    using rd_frame [OF f1 vc] ap by (simp add: apart_cells)
  obtain b2 s2 where 2: "go_append b1 ct s1 = (Return b2, s2)"
    and v2: "valid (heap s2) b2" and r2: "rd (heap s2) b2 = rd (heap s1) b1 @ rd (heap s1) ct"
    and e2: "events s2 = events s1" and f2: "frame (cells (spare_rg b1)) (heap s1) (heap s2)"
    and g2: "s_arr b2 = length (heap s1) \<or> (s_arr b2 = s_arr b1 \<and> s_off b2 = s_off b1 \<and> s_cap b2 = s_cap b1)"
    and l2: "s_len b2 = s_len b1 + length (rd (heap s1) ct)"
    using go_append_spec [OF v1, of ct] by blast
  have F2: "frame ?W ?h0 (heap s2)"
    by (rule frame_trans [OF f1 f2]) (rule spare_grown [OF G1])
  have G2: "length ?h0 \<le> s_arr b2 \<or>
      (s_arr b2 = s_arr aad \<and> s_off b2 = s_off aad \<and> s_cap b2 = s_cap aad \<and> s_len aad \<le> s_len b2)"
    using g2 G1 l2 frame_length [OF f1] by auto
  let ?e = "\<lparr>s_arr = length (heap s2), s_off = 0, s_len = length ?BL, s_cap = length ?BL\<rparr>"
  let ?s3 = "s2\<lparr>heap := heap s2 @ [?BL]\<rparr>"
  have 3: "bitLen pf aad s2 = (Return ?e, ?s3)"
    by (simp add: bitLen_def go_fresh_def)
  have v3: "valid (heap ?s3) b2" using valid_alloc [OF v2] by simp
  have r3: "rd (heap ?s3) b2 = rd (heap s2) b2" using rd_alloc [OF v2] by simp
  have re: "rd (heap ?s3) ?e = ?BL" by (simp add: rd_def arr_of_alloc)
  have F3: "frame ?W ?h0 (heap ?s3)"
    by (rule frame_trans [OF F2, of "{}"]) (simp_all add: frame_alloc)
  obtain b3 s4 where 4: "go_append b2 ?e ?s3 = (Return b3, s4)"
    and v4: "valid (heap s4) b3" and r4: "rd (heap s4) b3 = rd (heap ?s3) b2 @ rd (heap ?s3) ?e"
    and e4: "events s4 = events ?s3" and f4: "frame (cells (spare_rg b2)) (heap ?s3) (heap s4)"
    using go_append_spec [OF v3, of ?e] by blast
  have F4: "frame ?W ?h0 (heap s4)"
    by (rule frame_trans [OF F3 f4]) (rule spare_grown [OF G2])
  let ?M = "rd ?h0 aad @ rd ?h0 nonce @ rd ?h0 ct @ ?BL"
  have M: "rd (heap s4) b3 = ?M" using r4 r3 re r2 r1 rc1 by simp
  let ?S = "hmacSum pf alg (integrityKey ctx) ?M"
  have lS: "length ?S = hash_size alg" using ho by (simp add: hmac_ok_def)
  let ?sum = "\<lparr>s_arr = length (heap s4), s_off = 0, s_len = length ?S, s_cap = length ?S\<rparr>"
  let ?s5 = "s4\<lparr>heap := heap s4 @ [?S]\<rparr>"
  let ?tag = "\<lparr>s_arr = length (heap s4), s_off = 0, s_len = authtagBytes ctx, s_cap = length ?S\<rparr>"
  have 5: "go_fresh (hmacSum pf alg (integrityKey ctx) (rd (heap s4) b3)) s4 = (Return ?sum, ?s5)"
    by (simp add: go_fresh_def M)
  have 6: "reslice ?sum 0 (authtagBytes ctx) ?s5 = (Return ?tag, ?s5)"
    using kl lS by (simp add: reslice_def go_return_def)
  have run: "computeAuthTag pf ctx aad nonce ct s = (Return ?tag, ?s5)"
    by (simp add: computeAuthTag_def go_bind_Return 1 2 3 4 5 6 hs)
  have vt: "valid (heap ?s5) ?tag" using kl lS by (simp add: valid_def arr_of_alloc)
  have rt: "rd (heap ?s5) ?tag = take (authtagBytes ctx) ?S" by (simp add: rd_def arr_of_alloc)
  have F5: "frame ?W ?h0 (heap ?s5)"
    by (rule frame_trans [OF F4, of "{}"]) (simp_all add: frame_alloc)
  have le: "length ?h0 \<le> length (heap s4)" using frame_length [OF F4] .
  have ev: "events ?s5 = events s" using e4 e2 e1 by simp
  show ?thesis
    using run vt rt F5 le ev by (intro exI [of _ ?tag] exI [of _ ?s5]) simp
qed

section \<open>\<open>resize\<close>\<close>

lemma rd_rdr: "rd h sl = rdr h (s_arr sl) (s_off sl) (s_len sl)"
  by (simp add: rd_def rdr_def)

lemma rdr_split: "rdr h a off (n + m) = rdr h a off n @ rdr h a (off + n) m"
  by (simp only: rdr_def take_add drop_drop add.commute [of n off])

lemma rdr_frame:
  assumes f: "frame W h h'" and b: "off + n \<le> length (arr_of h a)"
    and d: "cells (a, off, off + n) \<inter> W = {}"
  shows "rdr h' a off n = rdr h a off n"
proof -
  let ?sl = "\<lparr>s_arr = a, s_off = off, s_len = n, s_cap = n\<rparr>"
  have "valid h ?sl" using b by (simp add: valid_def)
  from rd_frame [OF f this] d show ?thesis by (simp add: rd_rdr bytes_rg_def)
qed

lemma arr_of_frame: "frame W h h' \<Longrightarrow> length (arr_of h a) \<le> length (arr_of h' a)"
  by (auto simp: frame_def arr_of_def)

lemma frame_fresh:
  assumes "frame W h h'" and "frame W' h' h''" and "\<And>c. c \<in> W' \<Longrightarrow> length h \<le> fst c"
  shows "frame W h h''"
  by (rule frame_trans [OF assms(1,2)]) (use assms(3) in fastforce)

lemma go_copy_raw:
  assumes d: "valid (heap s) d" and src: "valid (heap s) src" and le: "s_len src \<le> s_len d"
  shows "\<exists>s'. go_copy d src s = (Return (s_len src), s')
      \<and> events s' = events s
      \<and> length (heap s') = length (heap s)
      \<and> frame (cells (s_arr d, s_off d, s_off d + s_len src)) (heap s) (heap s')
      \<and> rdr (heap s') (s_arr d) (s_off d) (s_len src) = rd (heap s) src"
  using go_copy_spec [OF d src le] by (simp add: rd_rdr)

lemma resize_spec:
  assumes v: "valid (heap s) dst" and le: "s_len dst \<le> n"
  shows "\<exists>head s'. resize dst n s =
        (Return (head, \<lparr>s_arr = s_arr head, s_off = s_off head + s_len dst,
                        s_len = n - s_len dst, s_cap = s_cap head - s_len dst\<rparr>), s')
     \<and> valid (heap s') head \<and> s_len head = n
     \<and> rdr (heap s') (s_arr head) (s_off head) (s_len dst) = rd (heap s) dst
     \<and> frame {} (heap s) (heap s') \<and> events s' = events s
     \<and> ((head = dst\<lparr>s_len := n\<rparr> \<and> s' = s \<and> n \<le> s_cap dst)
          \<or> (s_arr head = length (heap s) \<and> s_cap dst < n))"
proof (cases "n \<le> s_cap dst")
  case True
  let ?head = "dst\<lparr>s_len := n\<rparr>"
  have 1: "reslice dst 0 n s = (Return ?head, s)"
    using True by (simp add: reslice_def go_return_def)
  have 2: "reslice ?head (s_len dst) n s =
      (Return \<lparr>s_arr = s_arr ?head, s_off = s_off ?head + s_len dst,
               s_len = n - s_len dst, s_cap = s_cap ?head - s_len dst\<rparr>, s)"
    using True le by (simp add: reslice_def go_return_def)
  have run: "resize dst n s =
      (Return (?head, \<lparr>s_arr = s_arr ?head, s_off = s_off ?head + s_len dst,
               s_len = n - s_len dst, s_cap = s_cap ?head - s_len dst\<rparr>), s)"
    using True by (simp add: resize_def go_bind_Return 1 2 go_return_def)
  have vh: "valid (heap s) ?head" using v True by (simp add: valid_def)
  show ?thesis
    using run vh True by (intro exI [of _ ?head] exI [of _ s]) (simp add: frame_refl rd_rdr)
next
  case False
  let ?h = "heap s"
  let ?head = "\<lparr>s_arr = length ?h, s_off = 0, s_len = n, s_cap = n\<rparr>"
  let ?s1 = "s\<lparr>heap := ?h @ [replicate n 0]\<rparr>"
  have 1: "go_make n s = (Return ?head, ?s1)" by (simp add: go_make_def)
  have vh: "valid (heap ?s1) ?head" by (simp add: valid_def arr_of_alloc)
  have vd: "valid (heap ?s1) dst" using valid_alloc [OF v] by simp
  have le': "s_len dst \<le> s_len ?head" using le by simp
  obtain s2 where 2: "go_copy ?head dst ?s1 = (Return (s_len dst), s2)"
    and e2: "events s2 = events ?s1" and l2: "length (heap s2) = length (heap ?s1)"
    and f2: "frame (cells (s_arr ?head, s_off ?head, s_off ?head + s_len dst)) (heap ?s1) (heap s2)"
    and r2: "rdr (heap s2) (s_arr ?head) (s_off ?head) (s_len dst) = rd (heap ?s1) dst"
    using go_copy_raw [OF vh vd le'] by blast
  have 3: "reslice ?head (s_len dst) n s2 =
      (Return \<lparr>s_arr = s_arr ?head, s_off = s_off ?head + s_len dst,
               s_len = n - s_len dst, s_cap = s_cap ?head - s_len dst\<rparr>, s2)"
    using le by (simp add: reslice_def go_return_def)
  have run: "resize dst n s =
      (Return (?head, \<lparr>s_arr = s_arr ?head, s_off = s_off ?head + s_len dst,
               s_len = n - s_len dst, s_cap = s_cap ?head - s_len dst\<rparr>), s2)"
    using False by (simp add: resize_def go_bind_Return 1 2 3 go_return_def)
  have f: "frame {} ?h (heap s2)"
    by (rule frame_fresh [of "{}" ?h "heap ?s1", OF _ f2]) (auto simp: frame_alloc)
  have vh2: "valid (heap s2) ?head" using valid_frame [OF f2 vh] .
  have r: "rdr (heap s2) (s_arr ?head) (s_off ?head) (s_len dst) = rd ?h dst"
    using r2 rd_alloc [OF v] by simp
  show ?thesis
    using run vh2 r f e2 False by (intro exI [of _ ?head] exI [of _ s2]) simp
qed

section \<open>\<open>Seal\<close>\<close>

lemma apart_fresh:
  assumes "valid h sl" and "length h \<le> a"
  shows "apart (a, l, u) (spare_rg sl)"
proof (cases "s_arr sl = a")
  case True
  then have "arr_of h (s_arr sl) = []" using assms(2) by (simp add: arr_of_def)
  then have "s_cap sl = 0" using assms(1) by (simp add: valid_def)
  then show ?thesis using assms(1) by (simp add: spare_rg_def valid_def)
next
  case False
  then show ?thesis by (simp add: spare_rg_def)
qed

lemma supported_hash:
  assumes "supported ctx"
  shows "select_hash (length (integrityKey ctx)) = Some (spec_hash (length (integrityKey ctx)))
       \<and> authtagBytes ctx \<le> hash_size (spec_hash (length (integrityKey ctx)))
       \<and> 16 \<le> authtagBytes ctx"
  using assms by (auto simp: supported_def select_hash_def spec_hash_def)

lemma Seal_spec:
  assumes vd: "valid (heap s) dst" and vn: "valid (heap s) nonce"
    and vp: "valid (heap s) pt" and va: "valid (heap s) aad"
    and nl: "s_len nonce = blockSize (blockCipher ctx)" and bs: "1 \<le> blockSize (blockCipher ctx)"
    and bo: "block_ok (blockCipher ctx)" and su: "supported ctx" and ho: "hmac_ok pf"
  shows "\<exists>ret s'. Seal pf ctx dst nonce pt aad s = (Return ret, s')
     \<and> valid (heap s') ret
     \<and> s_len ret = s_len dst + (s_len pt + padSize (s_len pt) (blockSize (blockCipher ctx))) + authtagBytes ctx
     \<and> drop (s_len dst) (rd (heap s') ret)
         = sealed_bytes pf ctx (rd (heap s) nonce) (rd (heap s) pt) (rd (heap s) aad)
     \<and> (apart (bytes_rg dst) (spare_rg aad) \<longrightarrow> take (s_len dst) (rd (heap s') ret) = rd (heap s) dst)
     \<and> frame (cells (spare_rg aad) \<union> cells (spare_rg dst)) (heap s) (heap s')
     \<and> events s' = events s @ [CBCEncrypt (s_len pt + padSize (s_len pt) (blockSize (blockCipher ctx)))]
     \<and> ((s_arr ret = s_arr dst \<and> s_off ret = s_off dst \<and> s_cap ret = s_cap dst) \<or> length (heap s) \<le> s_arr ret)"
proof -
  let ?h0 = "heap s" and ?blk = "blockCipher ctx" and ?k = "authtagBytes ctx"
  let ?bs = "blockSize ?blk" and ?n = "s_len pt" and ?ld = "s_len dst"
  let ?p = "padSize ?n ?bs" and ?ov = "Overhead ctx"
  let ?P = "rd ?h0 pt" and ?N = "rd ?h0 nonce" and ?A = "rd ?h0 aad"
  let ?PP = "pkcs7 ?P ?bs"
  let ?C = "cbc_encrypt ?blk ?N ?PP"
  let ?lc = "?n + ?p"
  have lP: "length ?P = ?n" and lN: "length ?N = ?bs" and lA: "length ?A = s_len aad"
    using valid_len [OF vp] valid_len [OF vn] valid_len [OF va] nl by simp_all
  have pb: "1 \<le> ?p" "?p \<le> ?bs" using padSize_bounds [OF bs] by simp_all
  have lPP: "length ?PP = ?lc" by (simp add: length_pkcs7 lP)
  have mPP: "?lc mod ?bs = 0" by (rule padSize_full [OF bs])
  have lC: "length ?C = ?lc"
    using length_cbc_encrypt [OF bo lN, of ?PP] lPP mPP by simp
  let ?alg = "spec_hash (length (integrityKey ctx))"
  have hs: "select_hash (length (integrityKey ctx)) = Some ?alg"
    and kl: "?k \<le> hash_size ?alg" and k16: "16 \<le> ?k"
    using supported_hash [OF su] by simp_all
  have ov: "?ov = ?bs + ?k" by (simp add: Overhead_def)

  \<comment> \<open>the private buffer\<close>
  let ?buf = "\<lparr>s_arr = length ?h0, s_off = 0, s_len = ?n + ?ov, s_cap = ?n + ?ov\<rparr>"
  let ?s1 = "s\<lparr>heap := ?h0 @ [replicate (?n + ?ov) 0]\<rparr>"
  let ?ct0 = "\<lparr>s_arr = length ?h0, s_off = 0, s_len = ?n, s_cap = ?n + ?ov\<rparr>"
  have 1: "go_make (?n + ?ov) s = (Return ?buf, ?s1)" by (simp add: go_make_def)
  have 2: "reslice ?buf 0 ?n ?s1 = (Return ?ct0, ?s1)" by (simp add: reslice_def go_return_def)
  have v0: "valid (heap ?s1) ?ct0" by (simp add: valid_def arr_of_alloc)
  have vp1: "valid (heap ?s1) pt" using valid_alloc [OF vp] by simp
  have le0: "s_len pt \<le> s_len ?ct0" by simp
  obtain s2 where 3: "go_copy ?ct0 pt ?s1 = (Return ?n, s2)"
    and e2: "events s2 = events ?s1" and l2: "length (heap s2) = length (heap ?s1)"
    and f2: "frame (cells (s_arr ?ct0, s_off ?ct0, s_off ?ct0 + ?n)) (heap ?s1) (heap s2)"
    and r2: "rdr (heap s2) (s_arr ?ct0) (s_off ?ct0) ?n = rd (heap ?s1) pt"
    using go_copy_raw [OF v0 vp1 le0] by blast
  have F2: "frame {} ?h0 (heap s2)"
    by (rule frame_fresh [of "{}" ?h0 "heap ?s1", OF _ f2]) (auto simp: frame_alloc)
  have v2: "valid (heap s2) ?ct0" using valid_frame [OF f2 v0] .
  have rd2: "rd (heap s2) ?ct0 = ?P" using r2 rd_alloc [OF vp] by (simp add: rd_rdr)
  have rn2: "rd (heap s2) nonce = ?N" using rd_frame [OF F2 vn] by simp
  have 4: "NewCBC ?blk nonce s2 = (Return ?N, s2)" using nl by (simp add: NewCBC_def rn2)
  let ?pad = "replicate ?p (of_nat ?p :: byte)"
  obtain ct1 s3 where a5: "append_bytes ?ct0 ?pad s2 = (Return ct1, s3)"
    and v3: "valid (heap s3) ct1" and r3: "rd (heap s3) ct1 = rd (heap s2) ?ct0 @ ?pad"
    and l3: "s_len ct1 = s_len ?ct0 + length ?pad" and e3: "events s3 = events s2"
    and f3: "frame (cells (spare_rg ?ct0)) (heap s2) (heap s3)"
    and g3: "s_arr ct1 = length (heap s2) \<or>
             (s_arr ct1 = s_arr ?ct0 \<and> s_off ct1 = s_off ?ct0 \<and> s_cap ct1 = s_cap ?ct0)"
    using append_bytes_spec [OF v2, of ?pad] by blast
  have 5: "Pad ?ct0 ?bs s2 = (Return (Inr ct1), s3)"
    using bs by (simp add: Pad_def go_bind_Return a5 go_return_def)
  have fr1: "length ?h0 \<le> s_arr ct1" using g3 l2 by auto
  have F3: "frame {} ?h0 (heap s3)"
    by (rule frame_fresh [OF F2 f3]) (auto simp: spare_rg_def)
  have r3': "rd (heap s3) ct1 = ?PP" using r3 rd2 by (simp add: pkcs7_def lP)
  have l3': "s_len ct1 = ?lc" using l3 by simp
  let ?s4 = "s3\<lparr>heap := wr (heap s3) (s_arr ct1) (s_off ct1) ?C,
                 events := events s3 @ [CBCEncrypt ?lc]\<rparr>"
  have 6: "CryptBlocks_enc ?blk ?N ct1 ct1 s3 = (Return (), ?s4)"
    using bs l3' mPP r3' by (simp add: CryptBlocks_enc_def)
  have b6: "s_off ct1 + length ?C \<le> length (arr_of (heap s3) (s_arr ct1))"
    using v3 lC l3' by (simp add: valid_def)
  have f4: "frame (cells (s_arr ct1, s_off ct1, s_off ct1 + length ?C)) (heap s3) (heap ?s4)"
    using frame_wr [OF b6] by simp
  have F4: "frame {} ?h0 (heap ?s4)"
    by (rule frame_fresh [OF F3 f4]) (use fr1 in auto)
  have v4: "valid (heap ?s4) ct1" using valid_frame [OF f4 v3] .
  have r4: "rd (heap ?s4) ct1 = ?C"
    using rd_wr_same [OF b6, of ct1] l3' lC by simp
  have c1pos: "0 < s_cap ct1" using v3 l3' pb by (simp add: valid_def)

  \<comment> \<open>the tag\<close>
  have va4: "valid (heap ?s4) aad" and vn4: "valid (heap ?s4) nonce"
    using valid_frame [OF F4 va] valid_frame [OF F4 vn] by simp_all
  have ra4: "rd (heap ?s4) aad = ?A" and rn4: "rd (heap ?s4) nonce = ?N"
    using rd_frame [OF F4 va] rd_frame [OF F4 vn] by simp_all
  have ap: "apart (bytes_rg ct1) (spare_rg aad)"
    unfolding bytes_rg_def by (rule apart_fresh [OF va fr1])
  obtain tag s5 where 7: "computeAuthTag pf ctx aad nonce ct1 ?s4 = (Return tag, s5)"
    and vt: "valid (heap s5) tag" and lt: "s_len tag = ?k"
    and rt: "rd (heap s5) tag = take ?k (hmacSum pf ?alg (integrityKey ctx)
               (rd (heap ?s4) aad @ rd (heap ?s4) nonce @ rd (heap ?s4) ct1
                @ bitLen_bytes (intBits pf) (s_len aad)))"
    and ft1: "length (heap ?s4) \<le> s_arr tag" and ft2: "s_arr tag < length (heap s5)"
    and e5: "events s5 = events ?s4"
    and f5: "frame (cells (spare_rg aad)) (heap ?s4) (heap s5)"
    using computeAuthTag_spec [OF va4 vn4 v4 hs kl ho ap] by blast
  let ?T = "tag_bytes pf ctx ?A ?N ?C"
  have T: "rd (heap s5) tag = ?T" using rt ra4 rn4 r4 by (simp add: tag_bytes_def lA)
  have F5: "frame (cells (spare_rg aad)) ?h0 (heap s5)"
    by (rule frame_trans [OF frame_mono [OF F4] f5]) auto
  have v5c: "valid (heap s5) ct1" using valid_frame [OF f5 v4] .
  have r5c: "rd (heap s5) ct1 = ?C"
    using rd_frame [OF f5 v4] ap r4 by (simp add: apart_cells)
  have vd5: "valid (heap s5) dst" using valid_frame [OF F5 vd] .
  have l04: "length ?h0 \<le> length (heap ?s4)" using frame_length [OF F4] .
  have l05: "length ?h0 \<le> length (heap s5)" using frame_length [OF F5] .

  \<comment> \<open>the output\<close>
  let ?nn = "?ld + ?lc + ?k"
  have led: "?ld \<le> ?nn" by simp
  obtain hd s6 where 8: "resize dst ?nn s5 =
        (Return (hd, \<lparr>s_arr = s_arr hd, s_off = s_off hd + ?ld,
                        s_len = ?nn - ?ld, s_cap = s_cap hd - ?ld\<rparr>), s6)"
    and vh6: "valid (heap s6) hd" and lh: "s_len hd = ?nn"
    and rD: "rdr (heap s6) (s_arr hd) (s_off hd) ?ld = rd (heap s5) dst"
    and f6: "frame {} (heap s5) (heap s6)" and e6: "events s6 = events s5"
    and c6: "(hd = dst\<lparr>s_len := ?nn\<rparr> \<and> s6 = s5 \<and> ?nn \<le> s_cap dst)
             \<or> (s_arr hd = length (heap s5) \<and> s_cap dst < ?nn)"
    using resize_spec [OF vd5 led] by blast
  define tl where "tl = \<lparr>s_arr = s_arr hd, s_off = s_off hd + ?ld, s_len = ?lc + ?k, s_cap = s_cap hd - ?ld\<rparr>"
  define out where "out = \<lparr>s_arr = s_arr hd, s_off = s_off hd + ?ld + ?lc, s_len = ?k, s_cap = s_cap hd - ?ld - ?lc\<rparr>"
  let ?a = "s_arr hd" and ?o = "s_off hd"
  have rz: "resize dst (?ld + s_len ct1 + s_len tag) s5 = (Return (hd, tl), s6)"
    using 8 by (simp add: l3' lt tl_def)
  have hb: "?o + ?nn \<le> length (arr_of (heap s6) ?a)" and hc: "?nn \<le> s_cap hd"
    using vh6 lh by (simp_all add: valid_def)
  have vt6: "valid (heap s6) tl" using vh6 hc by (auto simp: valid_def tl_def)
  have vc6: "valid (heap s6) ct1" using valid_frame [OF f6 v5c] .
  have rc6: "rd (heap s6) ct1 = ?C" using rd_frame [OF f6 v5c] r5c by simp
  have vg6: "valid (heap s6) tag" using valid_frame [OF f6 vt] .
  have rg6: "rd (heap s6) tag = ?T" using rd_frame [OF f6 vt] T by simp
  have le9: "s_len ct1 \<le> s_len tl" using l3' by (simp add: tl_def)
  obtain s7 where 9: "go_copy tl ct1 s6 = (Return (s_len ct1), s7)"
    and e7: "events s7 = events s6" and l7: "length (heap s7) = length (heap s6)"
    and f7': "frame (cells (s_arr tl, s_off tl, s_off tl + s_len ct1)) (heap s6) (heap s7)"
    and r7': "rdr (heap s7) (s_arr tl) (s_off tl) (s_len ct1) = rd (heap s6) ct1"
    using go_copy_raw [OF vt6 vc6 le9] by blast
  have f7: "frame (cells (?a, ?o + ?ld, ?o + ?ld + ?lc)) (heap s6) (heap s7)"
    using f7' by (simp add: tl_def l3')
  have r7: "rdr (heap s7) ?a (?o + ?ld) ?lc = ?C"
    using r7' rc6 by (simp add: tl_def l3')
  have hc': "?lc + ?k \<le> s_cap hd - ?ld" using hc by linarith
  have 10: "reslice tl (s_len ct1) (s_len tl) s7 = (Return out, s7)"
    using hc' by (simp add: reslice_def go_return_def tl_def out_def l3' add.assoc)
  have ne: "s_arr tag \<noteq> ?a"
  proof (cases "hd = dst\<lparr>s_len := ?nn\<rparr> \<and> s6 = s5 \<and> ?nn \<le> s_cap dst")
    case True
    then have "0 < s_cap dst" using k16 by simp
    then have "s_arr dst < length ?h0" by (rule valid_old [OF vd])
    moreover have "?a = s_arr dst" using True by (cases dst) auto
    ultimately show ?thesis using ft1 l04 by simp
  next
    case False
    then have "?a = length (heap s5)" using c6 by blast
    then show ?thesis using ft2 by simp
  qed
  have vo7: "valid (heap s7) out" using valid_frame [OF f7 vh6] hc by (auto simp: valid_def out_def)
  have vg7: "valid (heap s7) tag" using valid_frame [OF f7 vg6] .
  have rg7: "rd (heap s7) tag = ?T"
  proof -
    have "cells (bytes_rg tag) \<inter> cells (?a, ?o + ?ld, ?o + ?ld + ?lc) = {}"
      using ne by (auto simp: bytes_rg_def)
    from rd_frame [OF f7 vg6 this] rg6 show ?thesis by simp
  qed
  have le11: "s_len tag \<le> s_len out" using lt by (simp add: out_def)
  obtain s8 where 11: "go_copy out tag s7 = (Return (s_len tag), s8)"
    and e8: "events s8 = events s7" and l8: "length (heap s8) = length (heap s7)"
    and f8': "frame (cells (s_arr out, s_off out, s_off out + s_len tag)) (heap s7) (heap s8)"
    and r8': "rdr (heap s8) (s_arr out) (s_off out) (s_len tag) = rd (heap s7) tag"
    using go_copy_raw [OF vo7 vg7 le11] by blast
  have f8: "frame (cells (?a, ?o + ?ld + ?lc, ?o + ?ld + ?lc + ?k)) (heap s7) (heap s8)"
    using f8' by (simp add: out_def lt)
  have r8: "rdr (heap s8) ?a (?o + ?ld + ?lc) ?k = ?T"
    using r8' rg7 by (simp add: out_def lt)
  have run: "Seal pf ctx dst nonce pt aad s = (Return hd, s8)"
    by (simp add: Seal_def go_bind_Return 1 2 3 4 5 6 7 rz 9 10 11 go_return_def)
  have nn: "?nn = ?ld + (?lc + ?k)" by simp
  have cases_hd: "(s_arr hd = s_arr dst \<and> s_off hd = s_off dst \<and> s_cap hd = s_cap dst \<and> ?nn \<le> s_cap dst)
                  \<or> length (heap s5) \<le> ?a"
    using c6 by auto
  have w7: "\<And>c. c \<in> cells (?a, ?o + ?ld, ?o + ?ld + ?lc) \<Longrightarrow> fst c < length ?h0
              \<Longrightarrow> c \<in> cells (spare_rg aad) \<union> cells (spare_rg dst)"
    using cases_hd l05 by (auto simp: spare_rg_def)
  have w8: "\<And>c. c \<in> cells (?a, ?o + ?ld + ?lc, ?o + ?ld + ?lc + ?k) \<Longrightarrow> fst c < length ?h0
              \<Longrightarrow> c \<in> cells (spare_rg aad) \<union> cells (spare_rg dst)"
    using cases_hd l05 by (auto simp: spare_rg_def)
  have F6: "frame (cells (spare_rg aad) \<union> cells (spare_rg dst)) ?h0 (heap s6)"
    by (rule frame_trans [OF frame_mono [OF F5] f6]) auto
  have F7: "frame (cells (spare_rg aad) \<union> cells (spare_rg dst)) ?h0 (heap s7)"
    by (rule frame_trans [OF F6 f7]) (use w7 in simp)
  have F8: "frame (cells (spare_rg aad) \<union> cells (spare_rg dst)) ?h0 (heap s8)"
    by (rule frame_trans [OF F7 f8]) (use w8 in simp)
  have vh8: "valid (heap s8) hd" using valid_frame [OF f8 valid_frame [OF f7 vh6]] .
  have hb7: "?o + ?nn \<le> length (arr_of (heap s7) ?a)"
    using valid_frame [OF f7 vh6] lh by (simp add: valid_def)
  have p1: "rdr (heap s8) ?a ?o ?ld = rd (heap s5) dst"
  proof -
    have "rdr (heap s8) ?a ?o ?ld = rdr (heap s7) ?a ?o ?ld"
      by (rule rdr_frame [OF f8]) (use hb7 in auto)
    also have "\<dots> = rdr (heap s6) ?a ?o ?ld"
      by (rule rdr_frame [OF f7]) (use hb in auto)
    finally show ?thesis using rD by simp
  qed
  have p2: "rdr (heap s8) ?a (?o + ?ld) ?lc = ?C"
  proof -
    have "rdr (heap s8) ?a (?o + ?ld) ?lc = rdr (heap s7) ?a (?o + ?ld) ?lc"
      by (rule rdr_frame [OF f8]) (use hb7 in auto)
    then show ?thesis using r7 by simp
  qed
  have p3: "rdr (heap s8) ?a (?o + ?ld + ?lc) ?k = ?T"
    using r8 by simp
  have "rd (heap s8) hd = rdr (heap s8) ?a ?o (?ld + (?lc + ?k))"
    using lh by (simp add: rd_rdr add.assoc)
  also have "\<dots> = rdr (heap s8) ?a ?o ?ld @ rdr (heap s8) ?a (?o + ?ld) ?lc
                    @ rdr (heap s8) ?a (?o + ?ld + ?lc) ?k"
    by (simp only: rdr_split)
  finally have whole: "rd (heap s8) hd = rd (heap s5) dst @ ?C @ ?T"
    using p1 p2 p3 by simp
  have lD: "length (rd (heap s5) dst) = ?ld" by (rule valid_len [OF vd5])
  have d: "drop ?ld (rd (heap s8) hd) = sealed_bytes pf ctx ?N ?P ?A"
    using whole lD by (simp add: sealed_bytes_def Let_def)
  have t: "apart (bytes_rg dst) (spare_rg aad) \<longrightarrow> take ?ld (rd (heap s8) hd) = rd ?h0 dst"
  proof
    assume "apart (bytes_rg dst) (spare_rg aad)"
    then have "rd (heap s5) dst = rd ?h0 dst"
      using rd_frame [OF F5 vd] by (simp add: apart_cells)
    then show "take ?ld (rd (heap s8) hd) = rd ?h0 dst" using whole lD by simp
  qed
  have ev: "events s8 = events s @ [CBCEncrypt ?lc]"
    using e8 e7 e6 e5 e3 e2 by simp
  have loc: "(s_arr hd = s_arr dst \<and> s_off hd = s_off dst \<and> s_cap hd = s_cap dst) \<or> length ?h0 \<le> ?a"
    using cases_hd l05 by auto
  show ?thesis
    using run vh8 lh d t F8 ev loc by (intro exI [of _ hd] exI [of _ s8]) simp
qed

section \<open>\<open>Open\<close>: the tag check\<close>

lemma rd_take: "n \<le> s_len sl \<Longrightarrow> rd h (sl\<lparr>s_len := n\<rparr>) = take n (rd h sl)"
  by (simp add: rd_def min_def)

lemma rd_drop:
  "n \<le> s_len sl \<Longrightarrow>
   rd h \<lparr>s_arr = s_arr sl, s_off = s_off sl + n, s_len = s_len sl - n, s_cap = c\<rparr> = drop n (rd h sl)"
  by (simp add: rd_def drop_take add.commute)

lemma Open_tag_phase:
  assumes vn: "valid (heap s) nonce" and vc: "valid (heap s) ct" and va: "valid (heap s) aad"
    and kl: "authtagBytes ctx \<le> s_len ct" and su: "supported ctx" and ho: "hmac_ok pf"
    and ap: "apart (bytes_rg ct) (spare_rg aad)"
  shows "\<exists>body rtag tag s1.
       reslice ct 0 (s_len ct - authtagBytes ctx) s = (Return body, s)
     \<and> computeAuthTag pf ctx aad nonce body s = (Return tag, s1)
     \<and> reslice ct (s_len ct - authtagBytes ctx) (s_len ct) s1 = (Return rtag, s1)
     \<and> ConstantTimeCompare tag rtag s1
         = (Return (if tag_bytes pf ctx (rd (heap s) aad) (rd (heap s) nonce)
                         (take (s_len ct - authtagBytes ctx) (rd (heap s) ct))
                       = drop (s_len ct - authtagBytes ctx) (rd (heap s) ct) then 1 else 0), s1)
     \<and> body = ct\<lparr>s_len := s_len ct - authtagBytes ctx\<rparr>
     \<and> frame (cells (spare_rg aad)) (heap s) (heap s1)
     \<and> events s1 = events s"
proof -
  let ?h0 = "heap s" and ?k = "authtagBytes ctx"
  define off where "off = s_len ct - ?k"
  define body where "body = ct\<lparr>s_len := off\<rparr>"
  define rtag where "rtag = \<lparr>s_arr = s_arr ct, s_off = s_off ct + off, s_len = s_len ct - off, s_cap = s_cap ct - off\<rparr>"
  let ?alg = "spec_hash (length (integrityKey ctx))"
  have hs: "select_hash (length (integrityKey ctx)) = Some ?alg"
    and kh: "?k \<le> hash_size ?alg"
    using supported_hash [OF su] by simp_all
  have lc: "s_len ct \<le> s_cap ct" using vc by (simp add: valid_def)
  have ol: "off \<le> s_len ct" and oc: "off \<le> s_cap ct" and ok: "s_len ct - off = ?k"
    using lc kl by (simp_all add: off_def)
  have 1: "reslice ct 0 off s = (Return body, s)"
    using oc by (simp add: reslice_def go_return_def body_def)
  have vb: "valid ?h0 body" using vc ol by (simp add: valid_def body_def)
  have apb: "apart (bytes_rg body) (spare_rg aad)"
    using ap ol by (auto simp: bytes_rg_def spare_rg_def body_def)
  obtain tag s1 where 2: "computeAuthTag pf ctx aad nonce body s = (Return tag, s1)"
    and vt: "valid (heap s1) tag" and lt: "s_len tag = ?k"
    and rt: "rd (heap s1) tag = take ?k (hmacSum pf ?alg (integrityKey ctx)
               (rd ?h0 aad @ rd ?h0 nonce @ rd ?h0 body @ bitLen_bytes (intBits pf) (s_len aad)))"
    and e1: "events s1 = events s"
    and f1: "frame (cells (spare_rg aad)) ?h0 (heap s1)"
    using computeAuthTag_spec [OF va vn vb hs kh ho apb] by blast
  have rb: "rd ?h0 body = take off (rd ?h0 ct)" unfolding body_def by (rule rd_take [OF ol])
  have T: "rd (heap s1) tag = tag_bytes pf ctx (rd ?h0 aad) (rd ?h0 nonce) (take off (rd ?h0 ct))"
    using rt rb valid_len [OF va] by (simp add: tag_bytes_def)
  have 3: "reslice ct off (s_len ct) s1 = (Return rtag, s1)"
    using lc ol by (simp add: reslice_def go_return_def rtag_def)
  have "rd (heap s1) ct = rd ?h0 ct"
    using rd_frame [OF f1 vc] ap by (simp add: apart_cells)
  moreover have "rd (heap s1) rtag = drop off (rd (heap s1) ct)"
    unfolding rtag_def by (rule rd_drop [OF ol])
  ultimately have R: "rd (heap s1) rtag = drop off (rd ?h0 ct)" by simp
  have lr: "s_len rtag = ?k" using ok by (simp add: rtag_def)
  have 4: "ConstantTimeCompare tag rtag s1 =
      (Return (if tag_bytes pf ctx (rd ?h0 aad) (rd ?h0 nonce) (take off (rd ?h0 ct))
                  = drop off (rd ?h0 ct) then 1 else 0), s1)"
    by (simp add: ConstantTimeCompare_def lt lr T R)
  show ?thesis
    using 1 2 3 4 f1 e1 unfolding off_def body_def
    by (intro exI [of _ "ct\<lparr>s_len := s_len ct - ?k\<rparr>"] exI [of _ rtag] exI [of _ tag] exI [of _ s1]) blast
qed

lemma Open_short:
  "s_len ct < authtagBytes ctx \<Longrightarrow> Open pf ctx dst nonce ct aad s = (Return (Inl CiphertextTooShort), s)"
  by (simp add: Open_def go_return_def)

lemma Open_mismatch:
  assumes vn: "valid (heap s) nonce" and vc: "valid (heap s) ct" and va: "valid (heap s) aad"
    and kl: "authtagBytes ctx \<le> s_len ct" and su: "supported ctx" and ho: "hmac_ok pf"
    and ap: "apart (bytes_rg ct) (spare_rg aad)"
    and ne: "tag_bytes pf ctx (rd (heap s) aad) (rd (heap s) nonce)
               (take (s_len ct - authtagBytes ctx) (rd (heap s) ct))
             \<noteq> drop (s_len ct - authtagBytes ctx) (rd (heap s) ct)"
  shows "\<exists>s'. Open pf ctx dst nonce ct aad s = (Return (Inl AuthenticationFailed), s')
       \<and> events s' = events s \<and> frame (cells (spare_rg aad)) (heap s) (heap s')"
proof -
  obtain body rtag tag s1 where
       1: "reslice ct 0 (s_len ct - authtagBytes ctx) s = (Return body, s)"
   and 2: "computeAuthTag pf ctx aad nonce body s = (Return tag, s1)"
   and 3: "reslice ct (s_len ct - authtagBytes ctx) (s_len ct) s1 = (Return rtag, s1)"
   and 4: "ConstantTimeCompare tag rtag s1
         = (Return (if tag_bytes pf ctx (rd (heap s) aad) (rd (heap s) nonce)
                         (take (s_len ct - authtagBytes ctx) (rd (heap s) ct))
                       = drop (s_len ct - authtagBytes ctx) (rd (heap s) ct) then 1 else 0), s1)"
   and f: "frame (cells (spare_rg aad)) (heap s) (heap s1)"
   and e: "events s1 = events s"
    using Open_tag_phase [OF vn vc va kl su ho ap] by blast
  have nlt: "\<not> s_len ct < authtagBytes ctx" using kl by simp
  have m0: "ConstantTimeCompare tag rtag s1 = (Return 0, s1)" using 4 ne by simp
  have "Open pf ctx dst nonce ct aad s = (Return (Inl AuthenticationFailed), s1)"
    by (simp add: Open_def nlt go_bind_Return 1 2 3 m0 go_return_def)
  then show ?thesis using f e by blast
qed

section \<open>\<open>Open\<close>: decryption\<close>

lemma Open_spec:
  assumes vd: "valid (heap s) dst" and vn: "valid (heap s) nonce"
    and vc: "valid (heap s) ct" and va: "valid (heap s) aad"
    and kl: "authtagBytes ctx \<le> s_len ct" and su: "supported ctx" and ho: "hmac_ok pf"
    and bo: "block_ok (blockCipher ctx)"
    and ap: "apart (bytes_rg ct) (spare_rg aad)" and apn: "apart (bytes_rg nonce) (spare_rg aad)"
    and eq: "tag_bytes pf ctx (rd (heap s) aad) (rd (heap s) nonce)
               (take (s_len ct - authtagBytes ctx) (rd (heap s) ct))
             = drop (s_len ct - authtagBytes ctx) (rd (heap s) ct)"
  shows "(s_len nonce \<noteq> blockSize (blockCipher ctx) \<longrightarrow>
            (\<exists>s'. Open pf ctx dst nonce ct aad s = (Panic IVLengthMismatch, s') \<and> events s' = events s))
       \<and> (s_len nonce = blockSize (blockCipher ctx) \<and> blockSize (blockCipher ctx) = 0 \<longrightarrow>
            (\<exists>s'. Open pf ctx dst nonce ct aad s = (Panic DivideByZero, s') \<and> events s' = events s))
       \<and> (s_len nonce = blockSize (blockCipher ctx) \<and> 0 < blockSize (blockCipher ctx)
           \<and> (s_len ct - authtagBytes ctx) mod blockSize (blockCipher ctx) \<noteq> 0 \<longrightarrow>
            (\<exists>s'. Open pf ctx dst nonce ct aad s = (Panic InputNotFullBlocks, s') \<and> events s' = events s))
       \<and> (s_len nonce = blockSize (blockCipher ctx) \<and> 0 < blockSize (blockCipher ctx)
           \<and> (s_len ct - authtagBytes ctx) mod blockSize (blockCipher ctx) = 0
           \<and> \<not> unpad_ok (cbc_decrypt (blockCipher ctx) (rd (heap s) nonce)
                            (take (s_len ct - authtagBytes ctx) (rd (heap s) ct)))
                         (blockSize (blockCipher ctx)) \<longrightarrow>
            (\<exists>s'. Open pf ctx dst nonce ct aad s = (Return (Inl InvalidPadding), s')
                \<and> events s' = events s @ [CBCDecrypt (s_len ct - authtagBytes ctx)]))
       \<and> (s_len nonce = blockSize (blockCipher ctx) \<and> 0 < blockSize (blockCipher ctx)
           \<and> (s_len ct - authtagBytes ctx) mod blockSize (blockCipher ctx) = 0
           \<and> unpad_ok (cbc_decrypt (blockCipher ctx) (rd (heap s) nonce)
                            (take (s_len ct - authtagBytes ctx) (rd (heap s) ct)))
                         (blockSize (blockCipher ctx)) \<longrightarrow>
            (\<exists>ret s'. Open pf ctx dst nonce ct aad s = (Return (Inr ret), s')
                \<and> valid (heap s') ret
                \<and> drop (s_len dst) (rd (heap s') ret)
                    = unpad_value (cbc_decrypt (blockCipher ctx) (rd (heap s) nonce)
                            (take (s_len ct - authtagBytes ctx) (rd (heap s) ct)))
                \<and> (apart (bytes_rg dst) (spare_rg aad) \<and> apart (bytes_rg dst) (bytes_rg ct)
                      \<longrightarrow> take (s_len dst) (rd (heap s') ret) = rd (heap s) dst)
                \<and> events s' = events s @ [CBCDecrypt (s_len ct - authtagBytes ctx)]
                \<and> frame (cells (spare_rg aad) \<union> cells (bytes_rg ct) \<union> cells (spare_rg dst))
                     (heap s) (heap s')))"
proof -
  let ?h0 = "heap s" and ?k = "authtagBytes ctx" and ?blk = "blockCipher ctx"
  let ?bs = "blockSize ?blk" and ?ld = "s_len dst"
  let ?N = "rd ?h0 nonce"
  define off where "off = s_len ct - ?k"
  define Q where "Q = cbc_decrypt ?blk ?N (take off (rd ?h0 ct))"
  obtain body rtag tag s1 where
       1: "reslice ct 0 (s_len ct - ?k) s = (Return body, s)"
   and 2: "computeAuthTag pf ctx aad nonce body s = (Return tag, s1)"
   and 3: "reslice ct (s_len ct - ?k) (s_len ct) s1 = (Return rtag, s1)"
   and 4: "ConstantTimeCompare tag rtag s1
         = (Return (if tag_bytes pf ctx (rd ?h0 aad) ?N (take (s_len ct - ?k) (rd ?h0 ct))
                       = drop (s_len ct - ?k) (rd ?h0 ct) then 1 else 0), s1)"
   and bd: "body = ct\<lparr>s_len := s_len ct - ?k\<rparr>"
   and f1: "frame (cells (spare_rg aad)) ?h0 (heap s1)"
   and e1: "events s1 = events s"
    using Open_tag_phase [OF vn vc va kl su ho ap] by blast
  have nlt: "\<not> s_len ct < ?k" using kl by simp
  have m1: "ConstantTimeCompare tag rtag s1 = (Return 1, s1)" using 4 eq by simp
  have ol: "off \<le> s_len ct" by (simp add: off_def)
  have lb: "s_len body = off" and ab: "s_arr body = s_arr ct" and ob: "s_off body = s_off ct"
    and cb: "s_cap body = s_cap ct"
    by (simp_all add: bd off_def)
  have vb0: "valid ?h0 body" using vc by (auto simp: valid_def bd)
  have vb1: "valid (heap s1) body" using valid_frame [OF f1 vb0] .
  have apb: "cells (bytes_rg body) \<inter> cells (spare_rg aad) = {}"
    using ap by (auto simp: bytes_rg_def spare_rg_def bd)
  have rb1: "rd (heap s1) body = take off (rd ?h0 ct)"
    using rd_frame [OF f1 vb0 apb] rd_take [OF ol, of ?h0] by (simp add: bd off_def)
  have rn1: "rd (heap s1) nonce = ?N"
    using rd_frame [OF f1 vn] apn by (simp add: apart_cells)
  let ?open = "Open pf ctx dst nonce ct aad s"
  have iv: "s_len nonce \<noteq> ?bs \<Longrightarrow> ?open = (Panic IVLengthMismatch, s1)"
    by (simp add: Open_def nlt go_bind_Return go_bind_Panic 1 2 3 m1 NewCBC_def)
  have 5: "s_len nonce = ?bs \<Longrightarrow> NewCBC ?blk nonce s1 = (Return ?N, s1)"
    by (simp add: NewCBC_def rn1)
  have dz: "s_len nonce = ?bs \<Longrightarrow> ?bs = 0 \<Longrightarrow> ?open = (Panic DivideByZero, s1)"
    by (simp add: Open_def nlt go_bind_Return go_bind_Panic 1 2 3 m1 5 CryptBlocks_dec_def)
  have nf: "s_len nonce = ?bs \<Longrightarrow> 0 < ?bs \<Longrightarrow> off mod ?bs \<noteq> 0
            \<Longrightarrow> ?open = (Panic InputNotFullBlocks, s1)"
    by (simp add: Open_def nlt go_bind_Return go_bind_Panic 1 2 3 m1 5 CryptBlocks_dec_def lb)
  let ?s2 = "s1\<lparr>heap := wr (heap s1) (s_arr body) (s_off body) Q,
                 events := events s1 @ [CBCDecrypt off]\<rparr>"
  have 6: "s_len nonce = ?bs \<Longrightarrow> 0 < ?bs \<Longrightarrow> off mod ?bs = 0
            \<Longrightarrow> CryptBlocks_dec ?blk ?N body body s1 = (Return (), ?s2)"
    by (simp add: CryptBlocks_dec_def lb rb1 Q_def)
  have lQ: "s_len nonce = ?bs \<Longrightarrow> off mod ?bs = 0 \<Longrightarrow> length Q = off"
    unfolding Q_def using length_cbc_decrypt [OF bo, of ?N "take off (rd ?h0 ct)"]
      valid_len [OF vn] valid_len [OF vc] ol by simp
  have b6: "s_len nonce = ?bs \<Longrightarrow> off mod ?bs = 0
            \<Longrightarrow> s_off body + length Q \<le> length (arr_of (heap s1) (s_arr body))"
    using vb1 lQ lb by (simp add: valid_def)
  have f2: "s_len nonce = ?bs \<Longrightarrow> off mod ?bs = 0
            \<Longrightarrow> frame (cells (bytes_rg body)) (heap s1) (heap ?s2)"
    using frame_wr [OF b6] lQ lb by (simp add: bytes_rg_def)
  have rq: "s_len nonce = ?bs \<Longrightarrow> off mod ?bs = 0 \<Longrightarrow> rd (heap ?s2) body = Q"
    using rd_wr_same [OF b6, of body] lQ lb by simp
  have ip: "s_len nonce = ?bs \<Longrightarrow> 0 < ?bs \<Longrightarrow> off mod ?bs = 0 \<Longrightarrow> \<not> unpad_ok Q ?bs
            \<Longrightarrow> ?open = (Return (Inl InvalidPadding), ?s2)"
    using rq by (simp add: Open_def nlt go_bind_Return 1 2 3 m1 5 6 Unpad_def go_return_def)
  have ok: "\<exists>ret s'. ?open = (Return (Inr ret), s')
                \<and> valid (heap s') ret
                \<and> drop ?ld (rd (heap s') ret) = unpad_value Q
                \<and> (apart (bytes_rg dst) (spare_rg aad) \<and> apart (bytes_rg dst) (bytes_rg ct)
                      \<longrightarrow> take ?ld (rd (heap s') ret) = rd ?h0 dst)
                \<and> events s' = events s @ [CBCDecrypt off]
                \<and> frame (cells (spare_rg aad) \<union> cells (bytes_rg ct) \<union> cells (spare_rg dst)) ?h0 (heap s')"
    if nl: "s_len nonce = ?bs" and bp: "0 < ?bs" and fb: "off mod ?bs = 0" and uo: "unpad_ok Q ?bs"
  proof -
    let ?W = "cells (spare_rg aad) \<union> cells (bytes_rg ct) \<union> cells (spare_rg dst)"
    define p where "p = unat (last Q)"
    define lp where "lp = off - p"
    define pl where "pl = body\<lparr>s_len := lp\<rparr>"
    have lq: "length Q = off" using lQ [OF nl fb] .
    have rq2: "rd (heap ?s2) body = Q" using rq [OF nl fb] .
    have F2: "frame (cells (bytes_rg body)) (heap s1) (heap ?s2)" using f2 [OF nl fb] .
    have c6: "CryptBlocks_dec ?blk ?N body body s1 = (Return (), ?s2)" using 6 [OF nl bp fb] .
    have lpo: "lp \<le> off" by (simp add: lp_def)
    have vb2: "valid (heap ?s2) body" using valid_frame [OF F2 vb1] .
    have lpc: "off - unat (last Q) \<le> s_cap body"
      using vb2 lb by (auto simp: valid_def)
    have 7: "Unpad body ?bs ?s2 = (Return (Inr pl), ?s2)"
      using uo rq2 lb lpc
      by (simp add: Unpad_def Let_def reslice_def go_bind_def go_return_def pl_def lp_def p_def)
    have vpl: "valid (heap ?s2) pl" using vb2 lpo lb by (simp add: valid_def pl_def)
    have rpl: "rd (heap ?s2) pl = unpad_value Q"
      using rd_take [of lp body "heap ?s2"] lpo lb rq2
      by (simp add: pl_def unpad_value_def lp_def p_def lq)
    have lpl: "s_len pl = lp" by (simp add: pl_def)
    have Fa: "frame ?W ?h0 (heap s1)" by (rule frame_mono [OF f1]) auto
    have Fb: "frame ?W ?h0 (heap ?s2)"
      by (rule frame_trans [OF Fa F2]) (auto simp: bytes_rg_def bd)
    have vd2: "valid (heap ?s2) dst" using valid_frame [OF Fb vd] .
    have led: "?ld \<le> ?ld + lp" by simp
    obtain hd s3 where 8: "resize dst (?ld + lp) ?s2 =
          (Return (hd, \<lparr>s_arr = s_arr hd, s_off = s_off hd + ?ld,
                          s_len = ?ld + lp - ?ld, s_cap = s_cap hd - ?ld\<rparr>), s3)"
      and vh3: "valid (heap s3) hd" and lh: "s_len hd = ?ld + lp"
      and rD: "rdr (heap s3) (s_arr hd) (s_off hd) ?ld = rd (heap ?s2) dst"
      and f3: "frame {} (heap ?s2) (heap s3)" and e3: "events s3 = events ?s2"
      and c8: "(hd = dst\<lparr>s_len := ?ld + lp\<rparr> \<and> s3 = ?s2 \<and> ?ld + lp \<le> s_cap dst)
               \<or> (s_arr hd = length (heap ?s2) \<and> s_cap dst < ?ld + lp)"
      using resize_spec [OF vd2 led] by blast
    define tl where "tl = \<lparr>s_arr = s_arr hd, s_off = s_off hd + ?ld, s_len = lp, s_cap = s_cap hd - ?ld\<rparr>"
    let ?a = "s_arr hd" and ?o = "s_off hd"
    have rz: "resize dst (?ld + s_len pl) ?s2 = (Return (hd, tl), s3)"
      using 8 by (simp add: lpl tl_def)
    have hb: "?o + (?ld + lp) \<le> length (arr_of (heap s3) ?a)" and hc: "?ld + lp \<le> s_cap hd"
      using vh3 lh by (simp_all add: valid_def)
    have vt3: "valid (heap s3) tl" using vh3 hc by (auto simp: valid_def tl_def)
    have vp3: "valid (heap s3) pl" using valid_frame [OF f3 vpl] .
    have rp3: "rd (heap s3) pl = unpad_value Q" using rd_frame [OF f3 vpl] rpl by simp
    have le9: "s_len pl \<le> s_len tl" by (simp add: tl_def lpl)
    obtain s4 where 9: "go_copy tl pl s3 = (Return (s_len pl), s4)"
      and e4: "events s4 = events s3"
      and f4': "frame (cells (s_arr tl, s_off tl, s_off tl + s_len pl)) (heap s3) (heap s4)"
      and r4': "rdr (heap s4) (s_arr tl) (s_off tl) (s_len pl) = rd (heap s3) pl"
      using go_copy_raw [OF vt3 vp3 le9] by blast
    have f4: "frame (cells (?a, ?o + ?ld, ?o + ?ld + lp)) (heap s3) (heap s4)"
      using f4' by (simp add: tl_def lpl)
    have r4: "rdr (heap s4) ?a (?o + ?ld) lp = unpad_value Q"
      using r4' rp3 by (simp add: tl_def lpl)
    have run: "?open = (Return (Inr hd), s4)"
      by (simp add: Open_def nlt go_bind_Return 1 2 3 m1 5 [OF nl] c6 7 rz 9 go_return_def)
    have p1: "rdr (heap s4) ?a ?o ?ld = rd (heap ?s2) dst"
    proof -
      have "rdr (heap s4) ?a ?o ?ld = rdr (heap s3) ?a ?o ?ld"
        by (rule rdr_frame [OF f4]) (use hb in auto)
      then show ?thesis using rD by simp
    qed
    have "rd (heap s4) hd = rdr (heap s4) ?a ?o (?ld + lp)" using lh by (simp add: rd_rdr)
    also have "\<dots> = rdr (heap s4) ?a ?o ?ld @ rdr (heap s4) ?a (?o + ?ld) lp"
      by (simp only: rdr_split)
    finally have whole: "rd (heap s4) hd = rd (heap ?s2) dst @ unpad_value Q"
      using p1 r4 by simp
    have lD: "length (rd (heap ?s2) dst) = ?ld" by (rule valid_len [OF vd2])
    have d: "drop ?ld (rd (heap s4) hd) = unpad_value Q" using whole lD by simp
    have t: "apart (bytes_rg dst) (spare_rg aad) \<and> apart (bytes_rg dst) (bytes_rg ct)
             \<longrightarrow> take ?ld (rd (heap s4) hd) = rd ?h0 dst"
    proof
      assume a: "apart (bytes_rg dst) (spare_rg aad) \<and> apart (bytes_rg dst) (bytes_rg ct)"
      then have "cells (bytes_rg dst) \<inter> cells (spare_rg aad) = {}"
        and "cells (bytes_rg dst) \<inter> cells (bytes_rg ct) = {}"
        by (simp_all add: apart_cells)
      moreover have "cells (bytes_rg body) \<subseteq> cells (bytes_rg ct)"
        by (auto simp: bytes_rg_def bd)
      ultimately have "rd (heap ?s2) dst = rd ?h0 dst"
        using rd_frame [OF f1 vd] rd_frame [OF F2 valid_frame [OF f1 vd]] by auto
      then show "take ?ld (rd (heap s4) hd) = rd ?h0 dst" using whole lD by simp
    qed
    have l02: "length ?h0 \<le> length (heap ?s2)" using frame_length [OF Fb] .
    have cases_hd: "(s_arr hd = s_arr dst \<and> s_off hd = s_off dst \<and> s_cap hd = s_cap dst \<and> ?ld + lp \<le> s_cap dst)
                    \<or> length (heap ?s2) \<le> ?a"
      using c8 by auto
    have w: "\<And>c. c \<in> cells (?a, ?o + ?ld, ?o + ?ld + lp) \<Longrightarrow> fst c < length ?h0 \<Longrightarrow> c \<in> ?W"
      using cases_hd l02 by (auto simp: spare_rg_def)
    have Fc: "frame ?W ?h0 (heap s3)" by (rule frame_trans [OF Fb f3]) auto
    have Fd: "frame ?W ?h0 (heap s4)" by (rule frame_trans [OF Fc f4]) (use w in simp)
    have vh4: "valid (heap s4) hd" using valid_frame [OF f4 vh3] .
    have ev: "events s4 = events s @ [CBCDecrypt off]" using e4 e3 e1 by simp
    show ?thesis using run vh4 d t ev Fd by blast
  qed
  show ?thesis
    using iv dz nf ip ok e1 unfolding Q_def off_def by auto
qed

section \<open>The claims\<close>

text \<open>
  C1 (as stated: construction fails for every half-length other than 16, 24, 32). It does
  not: a key of 31 bytes has half-length 15, its encryption half has 16 bytes, and with a
  factory that checks keys as AES does the construction returns a context.
\<close>

theorem C1_counterexample:
  "NewCBCHMAC (replicate 31 1) (keyed_factory 16) = Inr ctx15 \<and> (31::nat) div 2 \<notin> {16, 24, 32}"
  by (simp add: NewCBCHMAC_def keyed_factory_def ctx15_def)

text \<open>
  C1 (amended): for a half-length other than 16, 24, 32 the construction fails exactly
  when the factory rejects the encryption half, with the factory's error; when it returns
  a context, the unsupported key shows only in the tag computation, which panics on the
  nil hash.
\<close>

theorem C1_unsupported_key_deferred:
  assumes "length key div 2 \<notin> {16, 24, 32}"
  shows "(\<forall>e. newBlockCipher (drop (length key div 2) key) = Inl e \<longrightarrow> NewCBCHMAC key newBlockCipher = Inl e)
       \<and> (\<forall>blk. newBlockCipher (drop (length key div 2) key) = Inr blk \<longrightarrow>
             (\<exists>ctx. NewCBCHMAC key newBlockCipher = Inr ctx \<and> blockCipher ctx = blk \<and>
                    authtagBytes ctx = length key div 2 \<and>
                    integrityKey ctx = take (length key div 2) key))
       \<and> (\<forall>ctx. NewCBCHMAC key newBlockCipher = Inr ctx \<longrightarrow>
             newBlockCipher (drop (length key div 2) key) = Inr (blockCipher ctx) \<and>
             fst (computeAuthTag pf ctx aad nonce ct s) = Panic NilHash)"
proof (intro conjI allI impI)
  fix e assume "newBlockCipher (drop (length key div 2) key) = Inl e"
  then show "NewCBCHMAC key newBlockCipher = Inl e"
    by (simp add: NewCBCHMAC_def)
next
  fix blk assume "newBlockCipher (drop (length key div 2) key) = Inr blk"
  then show "\<exists>ctx. NewCBCHMAC key newBlockCipher = Inr ctx \<and> blockCipher ctx = blk \<and>
                 authtagBytes ctx = length key div 2 \<and>
                 integrityKey ctx = take (length key div 2) key"
    by (simp add: NewCBCHMAC_def Let_def)
next
  fix ctx assume c: "NewCBCHMAC key newBlockCipher = Inr ctx"
  then show "newBlockCipher (drop (length key div 2) key) = Inr (blockCipher ctx)"
    by (auto simp: NewCBCHMAC_def Let_def split: sum.splits)
  from c have "length (integrityKey ctx) = length key div 2"
    by (auto simp: NewCBCHMAC_def Let_def split: sum.splits)
  with assms have "select_hash (length (integrityKey ctx)) = None"
    by (simp add: select_hash_None)
  then show "fst (computeAuthTag pf ctx aad nonce ct s) = Panic NilHash"
    by (rule computeAuthTag_NilHash)
qed

theorem C1_unsupported_key_deferred_witness:
  "length (replicate 31 (1::byte)) div 2 \<notin> {16, 24, 32}
   \<and> keyed_factory 16 (drop (length (replicate 31 (1::byte)) div 2) (replicate 31 1)) = Inr (rot_block 16)
   \<and> (\<exists>ctx. NewCBCHMAC (replicate 31 1) (keyed_factory 16) = Inr ctx \<and> blockCipher ctx = rot_block 16
          \<and> authtagBytes ctx = 15
          \<and> fst (computeAuthTag pf64 ctx aad4 nonce16 buf_pt st0) = Panic NilHash)"
proof -
  have k: "length (replicate 31 (1::byte)) div 2 \<notin> {16, 24, 32}" by simp
  have f: "keyed_factory 16 (drop (length (replicate 31 (1::byte)) div 2) (replicate 31 1)) = Inr (rot_block 16)"
    by (simp add: keyed_factory_def)
  from C1_unsupported_key_deferred [OF k, of "keyed_factory 16" pf64 aad4 nonce16 buf_pt st0] f
  have "\<exists>ctx. NewCBCHMAC (replicate 31 1) (keyed_factory 16) = Inr ctx \<and> blockCipher ctx = rot_block 16
          \<and> authtagBytes ctx = length (replicate 31 (1::byte)) div 2
          \<and> fst (computeAuthTag pf64 ctx aad4 nonce16 buf_pt st0) = Panic NilHash"
    by blast
  then show ?thesis using k f by simp
qed

text \<open>
  C8 (as stated: \<open>NonceSize\<close> equals the block size of the cipher, whatever the factory).
  With a factory for a cipher of 8-byte blocks the context is constructed and \<open>NonceSize\<close>
  is still 16.
\<close>

theorem C8_counterexample:
  "NewCBCHMAC (replicate 16 1 @ replicate 16 2) (keyed_factory 8) = Inr (ctx16 8)
   \<and> NonceSize (ctx16 8) \<noteq> blockSize (blockCipher (ctx16 8))"
  by (simp add: NewCBCHMAC_def keyed_factory_def ctx16_def NonceSize_def nonceBytes_def rot_block_def)

text \<open>
  C8 (amended): for every constructed context \<open>NonceSize\<close> is the constant 16, whatever
  the factory; it equals the block size of the cipher exactly when that is 16 bytes.
\<close>

theorem C8_NonceSize_constant:
  assumes "NewCBCHMAC key newBlockCipher = Inr ctx"
  shows "NonceSize ctx = 16
       \<and> (NonceSize ctx = blockSize (blockCipher ctx)) = (blockSize (blockCipher ctx) = 16)"
  by (auto simp: NonceSize_def nonceBytes_def)

theorem C8_NonceSize_constant_witness:
  "NewCBCHMAC (replicate 16 1 @ replicate 16 2) (keyed_factory 16) = Inr (ctx16 16)
   \<and> NonceSize (ctx16 16) = 16 \<and> NonceSize (ctx16 16) = blockSize (blockCipher (ctx16 16))"
proof -
  have c: "NewCBCHMAC (replicate 16 1 @ replicate 16 2) (keyed_factory 16) = Inr (ctx16 16)"
    by (simp add: NewCBCHMAC_def keyed_factory_def ctx16_def)
  have "blockSize (blockCipher (ctx16 16)) = 16"
    by (simp add: ctx16_def rot_block_def)
  with C8_NonceSize_constant [OF c] c show ?thesis by simp
qed

text \<open>
  C9: \<open>NewCBCHMAC\<close> checks neither the length nor the evenness of the combined key. For a
  key of any length \<open>L\<close> the integrity key is \<open>key[0 : L/2]\<close> and the encryption key is
  \<open>key[L/2 : L]\<close> (one byte longer for odd \<open>L\<close>), and the construction succeeds whenever
  the factory accepts the encryption key.
\<close>

theorem C9_key_split:
  assumes "newBlockCipher (drop (length key div 2) key) = Inr blk"
  shows "\<exists>ctx. NewCBCHMAC key newBlockCipher = Inr ctx
       \<and> integrityKey ctx = take (length key div 2) key
       \<and> encryptionKey ctx = drop (length key div 2) key
       \<and> integrityKey ctx @ encryptionKey ctx = key
       \<and> authtagBytes ctx = length key div 2
       \<and> blockCipher ctx = blk
       \<and> length (integrityKey ctx) = length key div 2
       \<and> length (encryptionKey ctx) = length key - length key div 2
       \<and> (odd (length key) \<longrightarrow> length (encryptionKey ctx) = length (integrityKey ctx) + 1)"
proof -
  have m: "min (length key) (length key div 2) = length key div 2" by simp
  have o: "odd (length key) \<longrightarrow> length key - length key div 2 = length key div 2 + 1"
    by presburger
  show ?thesis
    using assms o by (simp add: NewCBCHMAC_def Let_def m)
qed

theorem C9_key_split_witness:
  "\<exists>ctx. NewCBCHMAC (replicate 33 5) (lax_factory 16) = Inr ctx
       \<and> integrityKey ctx = take (33 div 2) (replicate 33 5)
       \<and> encryptionKey ctx = drop (33 div 2) (replicate 33 5)
       \<and> length (integrityKey ctx) = 16 \<and> length (encryptionKey ctx) = 17"
proof -
  have a: "lax_factory 16 (drop (length (replicate 33 (5::byte)) div 2) (replicate 33 5)) = Inr (rot_block 16)"
    by (simp add: lax_factory_def)
  from C9_key_split [of "lax_factory 16" "replicate 33 5" "rot_block 16", OF a]
  show ?thesis by auto
qed

end
